theory Spec2Isabelle
  imports Complex_Main "HOL-Library.AList"
begin

section \<open>Python containers and exceptions\<close>

text \<open>
  A Python \<^verbatim>\<open>dict\<close> keeps its keys in insertion order: it is an association list.
  Assigning to a key that is present replaces the value in place, assigning to a new key
  appends it (\<open>AList.update\<close>); \<^verbatim>\<open>del d[key]\<close> is \<open>AList.delete\<close>. The keys of a
  dictionary are pairwise distinct; the operations below keep them so.
  Python integers are unbounded: \<open>int\<close>. The float \<^verbatim>\<open>eps\<close> and the results of
  true division \<^verbatim>\<open>/\<close> are modelled as exact rationals.
\<close>

type_synonym ('k, 'v) dict = "('k \<times> 'v) list"

datatype exn = ZeroDivisionError | KeyError | ValueError | NotImplementedError

text \<open>\<^verbatim>\<open>key in d\<close>\<close>

definition contains :: "('k, 'v) dict \<Rightarrow> 'k \<Rightarrow> bool" where
  "contains d key = (map_of d key \<noteq> None)"

text \<open>\<^verbatim>\<open>len(d)\<close>\<close>

definition len :: "('k, 'v) dict \<Rightarrow> int" where
  "len d = int (length d)"

text \<open>
  \<^verbatim>\<open>c[key]\<close> on a \<^verbatim>\<open>collections.Counter\<close>: a missing key reads as 0 and is not stored
  by the read.
\<close>

definition getitem :: "('k, int) dict \<Rightarrow> 'k \<Rightarrow> int" where
  "getitem c key = (case map_of c key of None \<Rightarrow> 0 | Some v \<Rightarrow> v)"

text \<open>\<^verbatim>\<open>d[key]\<close> on a plain \<^verbatim>\<open>dict\<close>: a missing key raises \<^verbatim>\<open>KeyError\<close>.\<close>

definition dict_getitem :: "('k, 'v) dict \<Rightarrow> 'k \<Rightarrow> exn + 'v" where
  "dict_getitem d key = (case map_of d key of None \<Rightarrow> Inl KeyError | Some v \<Rightarrow> Inr v)"

text \<open>\<^verbatim>\<open>d.get(key, default)\<close>\<close>

definition dict_get :: "('k, 'v) dict \<Rightarrow> 'k \<Rightarrow> 'v \<Rightarrow> 'v" where
  "dict_get d key dflt = (case map_of d key of None \<Rightarrow> dflt | Some v \<Rightarrow> v)"

text \<open>\<^verbatim>\<open>Counter.update(iterable)\<close>: one more for every element, in order.\<close>

definition Counter_update :: "('k, int) dict \<Rightarrow> 'k list \<Rightarrow> ('k, int) dict" where
  "Counter_update c chunk = fold (\<lambda>elem m. AList.update elem (getitem m elem + 1) m) chunk c"

subsection \<open>\<^verbatim>\<open>batched\<close>\<close>

text \<open>
  The generator cuts a finite iterable into lists of length \<open>n\<close>, the last one possibly
  shorter, and stops at the first empty slice. Its check of \<open>n\<close> runs when the first batch
  is asked for.
\<close>

function islices :: "nat \<Rightarrow> 'a list \<Rightarrow> 'a list list" where
  "islices n xs = (if n = 0 \<or> xs = [] then [] else take n xs # islices n (drop n xs))"
  by pat_completeness auto
termination
  by (relation "measure (\<lambda>(n, xs). length xs)") auto

declare islices.simps [simp del]

definition batched :: "'a list \<Rightarrow> int \<Rightarrow> exn + 'a list list" where
  "batched iterable n = (if n < 1 then Inl ValueError else Inr (islices (nat n) iterable))"

section \<open>The counting engine\<close>

record 'k LossyCounter =
  eps :: rat
  w :: int
  cache_counter :: "('k, int) dict"
  cache_total :: int
  counter :: "('k, int) dict"
  error :: "('k, int) dict"
  total_seen :: int
  nbucket :: int
  prune_limit :: int
  flush_limit :: int

text \<open>
  \<^verbatim>\<open>__init__\<close>: the only operation that can fail is \<^verbatim>\<open>1/eps\<close>. Nothing is validated.
\<close>

definition init :: "rat \<Rightarrow> int option \<Rightarrow> int option \<Rightarrow> exn + 'k LossyCounter" where
  "init e pl fl =
     (if e = 0 then Inl ZeroDivisionError
      else let width = \<lceil>1 / e\<rceil> in
        Inr \<lparr>eps = e, w = width, cache_counter = [], cache_total = 0,
             counter = [], error = [], total_seen = 0, nbucket = 0,
             prune_limit = (case pl of None \<Rightarrow> 10 * width | Some p \<Rightarrow> p),
             flush_limit = (case fl of None \<Rightarrow> 10 * width | Some f \<Rightarrow> f)\<rparr>)"

subsection \<open>\<^verbatim>\<open>prune\<close>\<close>

text \<open>
  The comprehension reads \<^verbatim>\<open>self.error[key]\<close> for every key of the table, in order, and
  raises \<^verbatim>\<open>KeyError\<close> at the first key without an error entry, before anything is deleted.
\<close>

fun prune_keys :: "'k LossyCounter \<Rightarrow> 'k list \<Rightarrow> exn + 'k list" where
  "prune_keys s [] = Inr []"
| "prune_keys s (key # ks) =
     (case dict_getitem (error s) key of
        Inl e \<Rightarrow> Inl e
      | Inr er \<Rightarrow>
          (case prune_keys s ks of
             Inl e \<Rightarrow> Inl e
           | Inr r \<Rightarrow> Inr (if getitem (counter s) key + er \<le> nbucket s then key # r else r)))"

definition del_key :: "'k \<Rightarrow> 'k LossyCounter \<Rightarrow> 'k LossyCounter" where
  "del_key key s = s\<lparr>counter := AList.delete key (counter s), error := AList.delete key (error s)\<rparr>"

definition prune :: "'k LossyCounter \<Rightarrow> 'k LossyCounter \<times> exn option" where
  "prune s =
     (case prune_keys s (map fst (counter s)) of
        Inl e \<Rightarrow> (s, Some e)
      | Inr keys \<Rightarrow> (fold del_key keys s, None))"

subsection \<open>\<^verbatim>\<open>flush\<close>\<close>

text \<open>The body of the loop over the keys of the cache.\<close>

definition flush_key :: "int \<Rightarrow> 'k \<Rightarrow> 'k LossyCounter \<Rightarrow> 'k LossyCounter" where
  "flush_key b key s =
     (if contains (counter s) key then
        s\<lparr>counter := AList.update key (getitem (counter s) key + getitem (cache_counter s) key) (counter s)\<rparr>
      else if getitem (cache_counter s) key > b then
        s\<lparr>counter := AList.update key (getitem (cache_counter s) key) (counter s),
          error := AList.update key (nbucket s) (error s)\<rparr>
      else s)"

text \<open>Everything \<^verbatim>\<open>flush\<close> does before it looks at the size of the table.\<close>

definition flush_merge :: "'k LossyCounter \<Rightarrow> 'k LossyCounter" where
  "flush_merge s =
     (let b = cache_total s div w s;
          s1 = fold (flush_key b) (map fst (cache_counter s)) s
      in s1\<lparr>nbucket := nbucket s1 + b,
            total_seen := total_seen s1 + cache_total s1,
            cache_counter := [],
            cache_total := 0\<rparr>)"

text \<open>
  Python's \<^verbatim>\<open>//\<close> on integers rounds down, as \<open>div\<close> on \<open>int\<close> does, and raises
  \<^verbatim>\<open>ZeroDivisionError\<close> for a zero divisor: that is the first statement, so nothing has
  changed when it raises.
\<close>

definition flush :: "'k LossyCounter \<Rightarrow> 'k LossyCounter \<times> exn option" where
  "flush s =
     (if w s = 0 then (s, Some ZeroDivisionError)
      else let s' = flush_merge s in
        if len (counter s') \<ge> prune_limit s' then prune s' else (s', None))"

subsection \<open>\<^verbatim>\<open>cache\<close> and \<^verbatim>\<open>count\<close>\<close>

definition cache :: "'k LossyCounter \<Rightarrow> 'k list \<Rightarrow> 'k LossyCounter \<times> exn option" where
  "cache s chunk =
     (let s1 = s\<lparr>cache_counter := Counter_update (cache_counter s) chunk,
                 cache_total := cache_total s + int (length chunk)\<rparr>
      in if cache_total s1 \<ge> flush_limit s1 then flush s1 else (s1, None))"

text \<open>The loop of \<^verbatim>\<open>count\<close> over the batches; an exception leaves the loop.\<close>

fun cache_chunks :: "'k LossyCounter \<Rightarrow> 'k list list \<Rightarrow> 'k LossyCounter \<times> exn option" where
  "cache_chunks s [] = (s, None)"
| "cache_chunks s (chunk # chunks) =
     (case cache s chunk of
        (s', Some e) \<Rightarrow> (s', Some e)
      | (s', None) \<Rightarrow> cache_chunks s' chunks)"

definition count :: "'k LossyCounter \<Rightarrow> 'k list \<Rightarrow> int option \<Rightarrow> 'k LossyCounter \<times> exn option" where
  "count s iterable chunk_size =
     (let n = (case chunk_size of None \<Rightarrow> flush_limit s | Some c \<Rightarrow> c) in
      case batched iterable n of
        Inl e \<Rightarrow> (s, Some e)
      | Inr chunks \<Rightarrow>
          (case cache_chunks s chunks of
             (s1, Some e) \<Rightarrow> (s1, Some e)
           | (s1, None) \<Rightarrow>
               (case flush s1 of
                  (s2, Some e) \<Rightarrow> (s2, Some e)
                | (s2, None) \<Rightarrow>
                    if len (counter s2) < prune_limit s2 then prune s2 else (s2, None))))"

section \<open>Queries\<close>

text \<open>
  Every query returns the engine together with its result, so that what a query leaves
  behind can be stated. The loops that fill a result dictionary stop at the first
  exception.
\<close>

fun collect :: "('k \<Rightarrow> exn + 'v) \<Rightarrow> 'k list \<Rightarrow> ('k, 'v) dict \<Rightarrow> exn + ('k, 'v) dict" where
  "collect f [] result = Inr result"
| "collect f (key # keys) result =
     (case f key of
        Inl e \<Rightarrow> Inl e
      | Inr v \<Rightarrow> collect f keys (AList.update key v result))"

fun select :: "('k \<Rightarrow> exn + bool) \<Rightarrow> 'k list \<Rightarrow> exn + 'k list" where
  "select p [] = Inr []"
| "select p (key # keys) =
     (case p key of
        Inl e \<Rightarrow> Inl e
      | Inr t \<Rightarrow>
          (case select p keys of
             Inl e \<Rightarrow> Inl e
           | Inr r \<Rightarrow> Inr (if t then key # r else r)))"

definition lower_value :: "'k LossyCounter \<Rightarrow> 'k \<Rightarrow> exn + rat" where
  "lower_value s key =
     (if contains (counter s) key then Inr (of_int (getitem (counter s) key)) else Inr 0)"

definition upper_value :: "'k LossyCounter \<Rightarrow> 'k \<Rightarrow> exn + rat" where
  "upper_value s key =
     (if contains (counter s) key then
        (case dict_getitem (error s) key of
           Inl e \<Rightarrow> Inl e
         | Inr er \<Rightarrow> Inr (of_int (getitem (counter s) key + er)))
      else Inr (of_int (nbucket s)))"

definition median_value :: "'k LossyCounter \<Rightarrow> 'k \<Rightarrow> exn + rat" where
  "median_value s key =
     (if contains (counter s) key then
        (case dict_getitem (error s) key of
           Inl e \<Rightarrow> Inl e
         | Inr er \<Rightarrow> Inr (of_int (getitem (counter s) key) + of_int er / 2))
      else Inr (of_int (nbucket s) / 2))"

definition getCounts ::
  "'k LossyCounter \<Rightarrow> 'k list \<Rightarrow> string \<Rightarrow> 'k LossyCounter \<times> (exn + ('k, rat) dict)" where
  "getCounts s keys approx =
     (if approx = ''lower'' then (s, collect (lower_value s) keys [])
      else if approx = ''upper'' then (s, collect (upper_value s) keys [])
      else if approx = ''median'' then (s, collect (median_value s) keys [])
      else (s, Inl NotImplementedError))"

definition resolve_threshold :: "'k LossyCounter \<Rightarrow> rat option \<Rightarrow> rat" where
  "resolve_threshold s threshold =
     (let t = (case threshold of None \<Rightarrow> eps s | Some x \<Rightarrow> x)
      in if t < 1 then t * of_int (total_seen s) else t)"

definition getFreqItems ::
  "'k LossyCounter \<Rightarrow> rat option \<Rightarrow> string \<Rightarrow> 'k LossyCounter \<times> (exn + 'k list)" where
  "getFreqItems s threshold approx =
     (let t = resolve_threshold s threshold in
      if approx = ''lower'' then
        (s, select (\<lambda>key. Inr (of_int (getitem (counter s) key) > t)) (map fst (counter s)))
      else if approx = ''upper'' then
        (s, select (\<lambda>key. case dict_getitem (error s) key of
                             Inl e \<Rightarrow> Inl e
                           | Inr er \<Rightarrow> Inr (of_int (getitem (counter s) key + er) > t))
                   (map fst (counter s)))
      else if approx = ''median'' then
        (s, select (\<lambda>key. case dict_getitem (error s) key of
                             Inl e \<Rightarrow> Inl e
                           | Inr er \<Rightarrow> Inr (of_int (getitem (counter s) key) + of_int er / 2 > t))
                   (map fst (counter s)))
      else (s, Inl NotImplementedError))"

definition getCountsAndErrors ::
  "'k LossyCounter \<Rightarrow> 'k list \<Rightarrow> 'k LossyCounter \<times> (exn + ('k, (string, int) dict) dict)" where
  "getCountsAndErrors s keys =
     (s, Inr (fold (\<lambda>key result.
                AList.update key
                  [(''count'', getitem (counter s) key),
                   (''error'', dict_get (error s) key (nbucket s))] result) keys []))"

definition getBounds ::
  "'k LossyCounter \<Rightarrow> 'k list \<Rightarrow> 'k LossyCounter \<times> (exn + ('k, (string, int) dict) dict)" where
  "getBounds s keys =
     (s, Inr (fold (\<lambda>key result.
                AList.update key
                  [(''lower'', getitem (counter s) key),
                   (''upper'', getitem (counter s) key + dict_get (error s) key (nbucket s))] result)
              keys []))"

section \<open>Runs of the engine\<close>

text \<open>
  The calls that change the engine. A caller may catch an exception and go on using the
  engine, so a run continues from whatever state a failed call has left.
\<close>

datatype 'k call = Cache "'k list" | Count "'k list" "int option" | Flush | Prune

fun exec :: "'k LossyCounter \<Rightarrow> 'k call \<Rightarrow> 'k LossyCounter \<times> exn option" where
  "exec s (Cache chunk) = cache s chunk"
| "exec s (Count iterable chunk_size) = count s iterable chunk_size"
| "exec s Flush = flush s"
| "exec s Prune = prune s"

fun run :: "'k LossyCounter \<Rightarrow> 'k call list \<Rightarrow> 'k LossyCounter" where
  "run s [] = s"
| "run s (c # cs) = run (fst (exec s c)) cs"

text \<open>
  The reference tally: the items a call hands to the engine. \<^verbatim>\<open>count\<close> with a batch size
  below 1 raises before it reads its iterable.
\<close>

fun fed :: "'k LossyCounter \<Rightarrow> 'k call \<Rightarrow> 'k list" where
  "fed s (Cache chunk) = chunk"
| "fed s (Count iterable chunk_size) =
     (if (case chunk_size of None \<Rightarrow> flush_limit s | Some c \<Rightarrow> c) < 1 then [] else iterable)"
| "fed s Flush = []"
| "fed s Prune = []"

fun submitted :: "'k LossyCounter \<Rightarrow> 'k call list \<Rightarrow> 'k list" where
  "submitted s [] = []"
| "submitted s (c # cs) = fed s c @ submitted (fst (exec s c)) cs"

definition true_count :: "'k LossyCounter \<Rightarrow> 'k call list \<Rightarrow> 'k \<Rightarrow> int" where
  "true_count s cs k = int (count_list (submitted s cs) k)"


section \<open>Notions of the specification, invariants and examples\<close>

text \<open>
  What the loop of \<^verbatim>\<open>flush\<close> makes of one key, read off the loop body: the entry of the
  table and the entry of the error map after the key has been visited with threshold \<open>b\<close>.
\<close>

definition merged_count :: "'k LossyCounter \<Rightarrow> int \<Rightarrow> 'k \<Rightarrow> int option" where
  "merged_count s b k =
     (case map_of (counter s) k of
        Some n \<Rightarrow> Some (n + getitem (cache_counter s) k)
      | None \<Rightarrow> if getitem (cache_counter s) k > b then Some (getitem (cache_counter s) k) else None)"

definition merged_error :: "'k LossyCounter \<Rightarrow> int \<Rightarrow> 'k \<Rightarrow> int option" where
  "merged_error s b k =
     (if \<not> contains (counter s) k \<and> getitem (cache_counter s) k > b then Some (nbucket s)
      else map_of (error s) k)"

text \<open>
  The pruning condition of a key: it is tracked, and its count plus its error is at most
  the bucket clock.
\<close>

definition prunable :: "'k LossyCounter \<Rightarrow> 'k \<Rightarrow> bool" where
  "prunable s k =
     (case (map_of (counter s) k, map_of (error s) k) of
        (Some c, Some e) \<Rightarrow> c + e \<le> nbucket s
      | _ \<Rightarrow> False)"

text \<open>The table and the error map have the same keys.\<close>

definition keys_agree :: "'k LossyCounter \<Rightarrow> bool" where
  "keys_agree s \<longleftrightarrow> fst ` set (counter s) = fst ` set (error s)"

text \<open>
  The three dictionaries of the engine are dictionaries (no key twice), and the table and
  the error map have the same keys.
\<close>

definition dict_inv :: "'k LossyCounter \<Rightarrow> bool" where
  "dict_inv s \<longleftrightarrow>
     keys_agree s \<and> distinct (map fst (counter s)) \<and> distinct (map fst (error s)) \<and>
     distinct (map fst (cache_counter s))"

text \<open>
  The invariant behind the bounds, for an engine with a positive bucket width and a tally
  \<open>T\<close> of everything handed to it: what has been flushed of a key, \<open>T k\<close> less its cached
  count, lies between the count and the count plus error of a tracked key, and between 0
  and the bucket clock for an untracked one.
\<close>

definition sound :: "'k LossyCounter \<Rightarrow> ('k \<Rightarrow> int) \<Rightarrow> bool" where
  "sound s T \<longleftrightarrow>
     0 < w s \<and> 0 \<le> cache_total s \<and> dict_inv s \<and>
     (\<forall>k. 0 \<le> getitem (cache_counter s) k \<and>
          0 \<le> T k - getitem (cache_counter s) k \<and>
          (case map_of (counter s) k of
             Some c \<Rightarrow> (\<exists>e. map_of (error s) k = Some e \<and>
                          c \<le> T k - getitem (cache_counter s) k \<and>
                          T k - getitem (cache_counter s) k \<le> c + e)
           | None \<Rightarrow> T k - getitem (cache_counter s) k \<le> nbucket s))"

text \<open>
  The table and the error map after a flush, written after the specification: by cases on
  whether the key is cached, whether it is tracked, and whether its cached count exceeds
  \<open>b = cache_total div w\<close>.
\<close>

definition spec_flush_count :: "'k LossyCounter \<Rightarrow> 'k \<Rightarrow> int option" where
  "spec_flush_count s k =
     (let b = cache_total s div w s in
      case map_of (cache_counter s) k of
        None \<Rightarrow> map_of (counter s) k
      | Some c \<Rightarrow>
          (case map_of (counter s) k of
             Some n \<Rightarrow> Some (n + c)
           | None \<Rightarrow> if c > b then Some c else None))"

definition spec_flush_error :: "'k LossyCounter \<Rightarrow> 'k \<Rightarrow> int option" where
  "spec_flush_error s k =
     (let b = cache_total s div w s in
      case map_of (cache_counter s) k of
        None \<Rightarrow> map_of (error s) k
      | Some c \<Rightarrow>
          (case map_of (counter s) k of
             Some n \<Rightarrow> map_of (error s) k
           | None \<Rightarrow> if c > b then Some (nbucket s) else map_of (error s) k))"

text \<open>The engines and calls of the worked examples.\<close>

definition scenario_batch :: "string list" where
  "scenario_batch = [''a'', ''a'', ''a'', ''a'', ''a'', ''b'', ''c'', ''d'', ''e'', ''f'']"

definition scenario_engine :: "string LossyCounter" where
  "scenario_engine =
     \<lparr>eps = 1 / 10, w = 10, cache_counter = [], cache_total = 0, counter = [], error = [],
      total_seen = 0, nbucket = 0, prune_limit = 100, flush_limit = 10\<rparr>"

definition scenario_cached :: "string LossyCounter" where
  "scenario_cached =
     scenario_engine\<lparr>cache_counter := [(''a'', 5), (''b'', 1), (''c'', 1), (''d'', 1), (''e'', 1), (''f'', 1)],
                      cache_total := 10\<rparr>"

definition scenario_flushed :: "string LossyCounter" where
  "scenario_flushed =
     scenario_engine\<lparr>counter := [(''a'', 5)], error := [(''a'', 0)], total_seen := 10, nbucket := 1\<rparr>"

text \<open>The conditions of the comprehensions of \<^verbatim>\<open>getFreqItems\<close>, named.\<close>

definition freq_upper :: "'k LossyCounter \<Rightarrow> rat \<Rightarrow> 'k \<Rightarrow> exn + bool" where
  "freq_upper s t key =
     (case dict_getitem (error s) key of
        Inl e \<Rightarrow> Inl e
      | Inr er \<Rightarrow> Inr (of_int (getitem (counter s) key + er) > t))"

definition freq_median :: "'k LossyCounter \<Rightarrow> rat \<Rightarrow> 'k \<Rightarrow> exn + bool" where
  "freq_median s t key =
     (case dict_getitem (error s) key of
        Inl e \<Rightarrow> Inl e
      | Inr er \<Rightarrow> Inr (of_int (getitem (counter s) key) + of_int er / 2 > t))"

definition default_engine :: "string LossyCounter" where
  "default_engine =
     \<lparr>eps = 1 / 10, w = 10, cache_counter = [], cache_total = 0, counter = [], error = [],
      total_seen = 0, nbucket = 0, prune_limit = 100, flush_limit = 100\<rparr>"

definition pending_calls :: "string call list" where
  "pending_calls = [Flush, Cache [''a'']]"

definition small_engine :: "string LossyCounter" where
  "small_engine =
     \<lparr>eps = 1 / 10, w = 10, cache_counter = [], cache_total = 0, counter = [], error = [],
      total_seen = 0, nbucket = 0, prune_limit = 3, flush_limit = 1\<rparr>"

definition three_calls :: "string call list" where
  "three_calls = [Cache [''a''], Cache [''b''], Cache [''c'']]"

definition three_tracked :: "string LossyCounter" where
  "three_tracked =
     small_engine\<lparr>counter := [(''a'', 1), (''b'', 1), (''c'', 1)],
                   error := [(''a'', 0), (''b'', 0), (''c'', 0)], total_seen := 3\<rparr>"

definition unchecked_engine :: "string LossyCounter" where
  "unchecked_engine =
     \<lparr>eps = 2, w = 1, cache_counter = [], cache_total = 0, counter = [], error = [],
      total_seen = 0, nbucket = 0, prune_limit = 0, flush_limit = 0\<rparr>"

definition boundary_calls :: "string call list" where
  "boundary_calls =
     [Cache [''a'', ''a'', ''z'', ''z'', ''z'', ''c'', ''d'', ''e'', ''f'', ''g''],
      Cache [''b'', ''c'', ''d'', ''e'', ''f'', ''g'', ''h'', ''i'', ''j'', ''k'']]"

definition boundary_engine :: "string LossyCounter" where
  "boundary_engine =
     scenario_engine\<lparr>counter := [(''a'', 2), (''z'', 3)], error := [(''a'', 0), (''z'', 0)],
                      total_seen := 20, nbucket := 2\<rparr>"

section \<open>Dictionaries\<close>

lemma contains_iff: "contains d k \<longleftrightarrow> k \<in> fst ` set d"
  by (simp add: contains_def map_of_eq_None_iff)

lemma contains_update [simp]: "contains (AList.update k v d) k' \<longleftrightarrow> k' = k \<or> contains d k'"
  by (auto simp: contains_def update_conv')

lemma getitem_update [simp]: "getitem (AList.update k v d) k' = (if k' = k then v else getitem d k')"
  by (simp add: getitem_def update_conv')

lemma contains_delete [simp]: "contains (AList.delete k d) k' \<longleftrightarrow> k' \<noteq> k \<and> contains d k'"
  by (auto simp: contains_def delete_conv')

lemma getitem_delete [simp]: "getitem (AList.delete k d) k' = (if k' = k then 0 else getitem d k')"
  by (simp add: getitem_def delete_conv')

lemma getitem_absent: "\<not> contains d k \<Longrightarrow> getitem d k = 0"
  by (simp add: contains_def getitem_def)

lemma getitem_Counter_update:
  "getitem (Counter_update c chunk) k = getitem c k + int (count_list chunk k)"
  unfolding Counter_update_def
  by (induction chunk arbitrary: c) auto

lemma contains_Counter_update:
  "contains (Counter_update c chunk) k \<longleftrightarrow> contains c k \<or> k \<in> set chunk"
  unfolding Counter_update_def
  by (induction chunk arbitrary: c) auto

lemma distinct_Counter_update:
  "distinct (map fst c) \<Longrightarrow> distinct (map fst (Counter_update c chunk))"
  unfolding Counter_update_def
  by (induction chunk arbitrary: c) (auto simp: distinct_update)

section \<open>The loop of \<^verbatim>\<open>flush\<close>\<close>

lemma flush_key_frame:
  "cache_counter (flush_key b key s) = cache_counter s"
  "cache_total (flush_key b key s) = cache_total s"
  "nbucket (flush_key b key s) = nbucket s"
  "total_seen (flush_key b key s) = total_seen s"
  "w (flush_key b key s) = w s"
  "eps (flush_key b key s) = eps s"
  "prune_limit (flush_key b key s) = prune_limit s"
  "flush_limit (flush_key b key s) = flush_limit s"
  by (simp_all add: flush_key_def)

lemma flush_loop_frame:
  "cache_counter (fold (flush_key b) ks s) = cache_counter s"
  "cache_total (fold (flush_key b) ks s) = cache_total s"
  "nbucket (fold (flush_key b) ks s) = nbucket s"
  "total_seen (fold (flush_key b) ks s) = total_seen s"
  "w (fold (flush_key b) ks s) = w s"
  "eps (fold (flush_key b) ks s) = eps s"
  "prune_limit (fold (flush_key b) ks s) = prune_limit s"
  "flush_limit (fold (flush_key b) ks s) = flush_limit s"
  by (induction ks arbitrary: s; simp add: flush_key_frame)+

lemma flush_key_counter:
  "map_of (counter (flush_key b key s)) k =
     (if k = key then merged_count s b k else map_of (counter s) k)"
  by (auto simp: flush_key_def merged_count_def contains_def getitem_def update_conv' split: option.splits)

lemma flush_key_error:
  "map_of (error (flush_key b key s)) k =
     (if k = key then merged_error s b k else map_of (error s) k)"
  by (auto simp: flush_key_def merged_error_def contains_def getitem_def update_conv' split: option.splits)

lemma flush_loop_counter:
  "distinct ks \<Longrightarrow>
   map_of (counter (fold (flush_key b) ks s)) k =
     (if k \<in> set ks then merged_count s b k else map_of (counter s) k)"
proof (induction ks arbitrary: s)
  case Nil
  show ?case by simp
next
  case (Cons key ks)
  have "map_of (counter (fold (flush_key b) ks (flush_key b key s))) k =
        (if k \<in> set ks then merged_count (flush_key b key s) b k
         else map_of (counter (flush_key b key s)) k)"
    using Cons.prems by (intro Cons.IH) simp
  moreover have "k \<noteq> key \<Longrightarrow> merged_count (flush_key b key s) b k = merged_count s b k"
    by (simp add: merged_count_def flush_key_counter flush_key_frame split: option.splits)
  ultimately show ?case
    using Cons.prems by (auto simp: flush_key_counter)
qed

lemma flush_loop_error:
  "distinct ks \<Longrightarrow>
   map_of (error (fold (flush_key b) ks s)) k =
     (if k \<in> set ks then merged_error s b k else map_of (error s) k)"
proof (induction ks arbitrary: s)
  case Nil
  show ?case by simp
next
  case (Cons key ks)
  have "map_of (error (fold (flush_key b) ks (flush_key b key s))) k =
        (if k \<in> set ks then merged_error (flush_key b key s) b k
         else map_of (error (flush_key b key s)) k)"
    using Cons.prems by (intro Cons.IH) simp
  moreover have "k \<noteq> key \<Longrightarrow> merged_error (flush_key b key s) b k = merged_error s b k"
    by (simp add: merged_error_def flush_key_counter flush_key_error flush_key_frame contains_def)
  ultimately show ?case
    using Cons.prems by (auto simp: flush_key_error)
qed

section \<open>\<^verbatim>\<open>prune\<close>\<close>

lemma dict_getitem_Inr: "contains d k \<Longrightarrow> \<exists>v. map_of d k = Some v \<and> dict_getitem d k = Inr v"
  by (auto simp: contains_def dict_getitem_def)

lemma dict_getitem_Inl: "\<not> contains d k \<Longrightarrow> dict_getitem d k = Inl KeyError"
  by (auto simp: contains_def dict_getitem_def)

lemma prune_keys_ok:
  "\<forall>k \<in> set ks. contains (counter s) k \<and> contains (error s) k \<Longrightarrow>
   prune_keys s ks = Inr (filter (prunable s) ks)"
proof (induction ks)
  case Nil
  show ?case by simp
next
  case (Cons key ks)
  then obtain c e where "map_of (counter s) key = Some c" "map_of (error s) key = Some e"
    by (auto simp: contains_def)
  moreover have "prune_keys s ks = Inr (filter (prunable s) ks)"
    using Cons by simp
  moreover have "prunable s key = (c + e \<le> nbucket s)"
    using calculation by (simp add: prunable_def)
  ultimately show ?case
    by (simp add: dict_getitem_def getitem_def)
qed

lemma prune_keys_err:
  "\<exists>k \<in> set ks. \<not> contains (error s) k \<Longrightarrow> prune_keys s ks = Inl KeyError"
proof (induction ks)
  case Nil
  then show ?case by simp
next
  case (Cons key ks)
  show ?case
  proof (cases "contains (error s) key")
    case False
    then show ?thesis by (simp add: dict_getitem_Inl)
  next
    case True
    with Cons.prems have "\<exists>k \<in> set ks. \<not> contains (error s) k" by auto
    then have "prune_keys s ks = Inl KeyError" by (rule Cons.IH)
    moreover obtain v where "dict_getitem (error s) key = Inr v"
      using dict_getitem_Inr [OF True] by blast
    ultimately show ?thesis by simp
  qed
qed

lemma delete_filter: "AList.delete key d = filter (\<lambda>p. fst p \<noteq> key) d"
  by (induction d) auto

lemma fold_del_key:
  "fold del_key keys s =
     s\<lparr>counter := filter (\<lambda>p. fst p \<notin> set keys) (counter s),
       error := filter (\<lambda>p. fst p \<notin> set keys) (error s)\<rparr>"
proof (induction keys arbitrary: s)
  case Nil
  show ?case by simp
next
  case (Cons key keys)
  have "del_key key s = s\<lparr>counter := filter (\<lambda>p. fst p \<noteq> key) (counter s),
                           error := filter (\<lambda>p. fst p \<noteq> key) (error s)\<rparr>"
    by (simp add: del_key_def delete_filter)
  then show ?case
    by (simp add: Cons.IH conj_commute)
qed

lemma prune_ok:
  assumes "\<forall>k \<in> fst ` set (counter s). contains (error s) k"
  shows "prune s =
     (s\<lparr>counter := filter (\<lambda>p. \<not> prunable s (fst p)) (counter s),
        error := filter (\<lambda>p. \<not> prunable s (fst p)) (error s)\<rparr>, None)"
proof -
  have "prune_keys s (map fst (counter s)) = Inr (filter (prunable s) (map fst (counter s)))"
    using assms by (intro prune_keys_ok) (auto simp: contains_iff)
  moreover have "\<And>p. prunable s p \<Longrightarrow> p \<in> fst ` set (counter s)"
    by (auto simp: prunable_def split: option.splits dest!: map_of_SomeD intro: rev_image_eqI)
  then have "\<And>p. (p \<notin> set (filter (prunable s) (map fst (counter s)))) = (\<not> prunable s p)"
    by auto
  ultimately show ?thesis
    by (simp add: prune_def fold_del_key)
qed

lemma prune_err:
  assumes "\<not> (\<forall>k \<in> fst ` set (counter s). contains (error s) k)"
  shows "prune s = (s, Some KeyError)"
proof -
  have "prune_keys s (map fst (counter s)) = Inl KeyError"
    using assms by (intro prune_keys_err) auto
  then show ?thesis by (simp add: prune_def)
qed

section \<open>Every call keeps the dictionaries well formed\<close>

lemma keys_filter: "fst ` set (filter (\<lambda>p. P (fst p)) d) = {k \<in> fst ` set d. P k}"
  by auto

lemma distinct_keys_filter: "distinct (map fst d) \<Longrightarrow> distinct (map fst (filter P d))"
  by (simp add: distinct_map_filter)

lemma init_dict_inv: "init e pl fl = Inr s \<Longrightarrow> dict_inv s"
  by (auto simp: init_def dict_inv_def keys_agree_def Let_def split: if_splits)

lemma flush_key_dict_inv: "dict_inv s \<Longrightarrow> dict_inv (flush_key b key s)"
  by (auto simp: dict_inv_def keys_agree_def flush_key_def dom_update distinct_update contains_iff)

lemma flush_loop_dict_inv: "dict_inv s \<Longrightarrow> dict_inv (fold (flush_key b) ks s)"
  by (induction ks arbitrary: s) (simp_all add: flush_key_dict_inv)

lemma flush_merge_dict_inv:
  assumes "dict_inv s"
  shows "dict_inv (flush_merge s)"
proof -
  have "dict_inv (fold (flush_key (cache_total s div w s)) (map fst (cache_counter s)) s)"
    using assms by (rule flush_loop_dict_inv)
  then show ?thesis
    by (simp add: flush_merge_def Let_def dict_inv_def keys_agree_def)
qed

lemma prune_dict_inv:
  assumes "dict_inv s"
  shows "dict_inv (fst (prune s))"
proof (cases "\<forall>k \<in> fst ` set (counter s). contains (error s) k")
  case True
  have "fst ` set (filter (\<lambda>p. \<not> prunable s (fst p)) (counter s)) =
        {k \<in> fst ` set (counter s). \<not> prunable s k}"
    by (rule keys_filter)
  also have "\<dots> = {k \<in> fst ` set (error s). \<not> prunable s k}"
    using assms by (simp add: dict_inv_def keys_agree_def)
  also have "\<dots> = fst ` set (filter (\<lambda>p. \<not> prunable s (fst p)) (error s))"
    by (rule keys_filter [symmetric])
  finally have "fst ` set (filter (\<lambda>p. \<not> prunable s (fst p)) (counter s)) =
        fst ` set (filter (\<lambda>p. \<not> prunable s (fst p)) (error s))" .
  then show ?thesis
    using assms by (simp add: prune_ok [OF True] dict_inv_def keys_agree_def distinct_keys_filter)
next
  case False
  then show ?thesis using assms by (simp add: prune_err)
qed

lemma flush_dict_inv: "dict_inv s \<Longrightarrow> dict_inv (fst (flush s))"
  by (simp add: flush_def Let_def flush_merge_dict_inv prune_dict_inv)

lemma cache_dict_inv:
  assumes "dict_inv s"
  shows "dict_inv (fst (cache s chunk))"
proof -
  have "dict_inv (s\<lparr>cache_counter := Counter_update (cache_counter s) chunk,
                    cache_total := cache_total s + int (length chunk)\<rparr>)"
    using assms by (simp add: dict_inv_def keys_agree_def distinct_Counter_update)
  then show ?thesis
    by (simp add: cache_def Let_def flush_dict_inv)
qed

lemma cache_chunks_dict_inv: "dict_inv s \<Longrightarrow> dict_inv (fst (cache_chunks s chunks))"
proof (induction chunks arbitrary: s)
  case Nil
  then show ?case by simp
next
  case (Cons chunk chunks)
  have "dict_inv (fst (cache s chunk))"
    using Cons.prems by (rule cache_dict_inv)
  then show ?case
    using Cons.IH [of "fst (cache s chunk)"]
    by (cases "cache s chunk") (auto split: option.splits)
qed

lemma count_dict_inv:
  assumes "dict_inv s"
  shows "dict_inv (fst (count s iterable chunk_size))"
proof (cases "batched iterable (case chunk_size of None \<Rightarrow> flush_limit s | Some c \<Rightarrow> c)")
  case (Inl e)
  then show ?thesis using assms by (simp add: count_def)
next
  case (Inr chunks)
  obtain s1 r1 where c1: "cache_chunks s chunks = (s1, r1)" by (cases "cache_chunks s chunks")
  obtain s2 r2 where c2: "flush s1 = (s2, r2)" by (cases "flush s1")
  have i1: "dict_inv s1"
    using cache_chunks_dict_inv [OF assms, of chunks] c1 by simp
  have i2: "dict_inv s2"
    using flush_dict_inv [OF i1] c2 by simp
  have i3: "dict_inv (fst (prune s2))"
    using i2 by (rule prune_dict_inv)
  show ?thesis
    using Inr c1 c2 i1 i2 i3 by (simp add: count_def split: option.splits)
qed

lemma exec_dict_inv: "dict_inv s \<Longrightarrow> dict_inv (fst (exec s c))"
  by (cases c) (simp_all add: cache_dict_inv count_dict_inv flush_dict_inv prune_dict_inv)

lemma run_dict_inv: "dict_inv s \<Longrightarrow> dict_inv (run s cs)"
  by (induction cs arbitrary: s) (simp_all add: exec_dict_inv)

section \<open>Every call keeps the bounds\<close>

lemma map_of_keys_filter:
  "map_of (filter (\<lambda>p. P (fst p)) d) k = (if P k then map_of d k else None)"
  by (induction d) auto

lemma init_sound:
  assumes "init e pl fl = Inr s" and "0 < e"
  shows "sound s (\<lambda>k. 0)"
proof -
  have "0 < \<lceil>1 / e\<rceil>" using assms(2) by simp
  then show ?thesis
    using assms init_dict_inv [OF assms(1)]
    by (auto simp: init_def sound_def Let_def getitem_def split: if_splits)
qed

lemma cache_store_sound:
  assumes "sound s T"
  shows "sound (s\<lparr>cache_counter := Counter_update (cache_counter s) chunk,
                  cache_total := cache_total s + int (length chunk)\<rparr>)
               (\<lambda>k. T k + int (count_list chunk k))"
proof -
  have "dict_inv (s\<lparr>cache_counter := Counter_update (cache_counter s) chunk,
                    cache_total := cache_total s + int (length chunk)\<rparr>)"
    using assms by (simp add: sound_def dict_inv_def keys_agree_def distinct_Counter_update)
  then show ?thesis
    using assms by (simp add: sound_def getitem_Counter_update cong: option.case_cong)
qed

lemma flush_merge_counter:
  assumes "distinct (map fst (cache_counter s))" and "0 \<le> cache_total s div w s"
  shows "map_of (counter (flush_merge s)) k = merged_count s (cache_total s div w s) k"
proof (cases "contains (cache_counter s) k")
  case True
  then show ?thesis
    using assms(1) by (simp add: flush_merge_def Let_def flush_loop_counter contains_iff)
next
  case False
  then have "getitem (cache_counter s) k = 0" by (rule getitem_absent)
  then have "merged_count s (cache_total s div w s) k = map_of (counter s) k"
    using assms(2) by (simp add: merged_count_def split: option.splits)
  then show ?thesis
    using assms(1) False by (simp add: flush_merge_def Let_def flush_loop_counter contains_iff)
qed

lemma flush_merge_error:
  assumes "distinct (map fst (cache_counter s))" and "0 \<le> cache_total s div w s"
  shows "map_of (error (flush_merge s)) k = merged_error s (cache_total s div w s) k"
proof (cases "contains (cache_counter s) k")
  case True
  then show ?thesis
    using assms(1) by (simp add: flush_merge_def Let_def flush_loop_error contains_iff)
next
  case False
  then have "getitem (cache_counter s) k = 0" by (rule getitem_absent)
  then have "merged_error s (cache_total s div w s) k = map_of (error s) k"
    using assms(2) by (simp add: merged_error_def)
  then show ?thesis
    using assms(1) False by (simp add: flush_merge_def Let_def flush_loop_error contains_iff)
qed

lemma flush_merge_frame:
  "cache_counter (flush_merge s) = []"
  "cache_total (flush_merge s) = 0"
  "nbucket (flush_merge s) = nbucket s + cache_total s div w s"
  "total_seen (flush_merge s) = total_seen s + cache_total s"
  "w (flush_merge s) = w s"
  "eps (flush_merge s) = eps s"
  "prune_limit (flush_merge s) = prune_limit s"
  "flush_limit (flush_merge s) = flush_limit s"
  by (simp_all add: flush_merge_def Let_def flush_loop_frame)

lemma flush_merge_sound:
  assumes "sound s T"
  shows "sound (flush_merge s) T"
proof -
  let ?b = "cache_total s div w s"
  have b: "0 \<le> ?b"
    using assms by (simp add: sound_def pos_imp_zdiv_nonneg_iff)
  have d: "distinct (map fst (cache_counter s))"
    using assms by (simp add: sound_def dict_inv_def)
  have inv: "dict_inv (flush_merge s)"
    using assms by (simp add: sound_def flush_merge_dict_inv)
  have "case map_of (counter (flush_merge s)) k of
          Some c \<Rightarrow> (\<exists>e. map_of (error (flush_merge s)) k = Some e \<and> c \<le> T k \<and> T k \<le> c + e)
        | None \<Rightarrow> T k \<le> nbucket s + ?b" for k
  proof -
    have k: "0 \<le> getitem (cache_counter s) k" "0 \<le> T k - getitem (cache_counter s) k"
      "case map_of (counter s) k of
             Some c \<Rightarrow> (\<exists>e. map_of (error s) k = Some e \<and>
                          c \<le> T k - getitem (cache_counter s) k \<and>
                          T k - getitem (cache_counter s) k \<le> c + e)
           | None \<Rightarrow> T k - getitem (cache_counter s) k \<le> nbucket s"
      using assms by (simp_all add: sound_def)
    show ?thesis
      unfolding flush_merge_counter [OF d b] flush_merge_error [OF d b]
      using k b
      by (auto simp: merged_count_def merged_error_def contains_def split: option.splits)
  qed
  moreover have "0 \<le> T k" for k
  proof -
    have "0 \<le> getitem (cache_counter s) k" "0 \<le> T k - getitem (cache_counter s) k"
      using assms by (simp_all add: sound_def)
    then show ?thesis by linarith
  qed
  ultimately show ?thesis
    using assms inv by (simp add: sound_def flush_merge_frame getitem_def cong: option.case_cong)
qed

lemma prune_sound:
  assumes "sound s T"
  shows "\<exists>s'. prune s = (s', None) \<and> sound s' T"
proof -
  have ka: "\<forall>k \<in> fst ` set (counter s). contains (error s) k"
    using assms by (simp add: sound_def dict_inv_def keys_agree_def contains_iff)
  let ?s' = "s\<lparr>counter := filter (\<lambda>p. \<not> prunable s (fst p)) (counter s),
               error := filter (\<lambda>p. \<not> prunable s (fst p)) (error s)\<rparr>"
  have p: "prune s = (?s', None)" by (rule prune_ok [OF ka])
  have "dict_inv (fst (prune s))"
    using assms by (simp add: sound_def prune_dict_inv)
  then have inv: "dict_inv ?s'" by (simp add: p)
  have "case map_of (counter ?s') k of
             Some c \<Rightarrow> (\<exists>e. map_of (error ?s') k = Some e \<and>
                          c \<le> T k - getitem (cache_counter s) k \<and>
                          T k - getitem (cache_counter s) k \<le> c + e)
           | None \<Rightarrow> T k - getitem (cache_counter s) k \<le> nbucket s" for k
  proof -
    have k: "case map_of (counter s) k of
             Some c \<Rightarrow> (\<exists>e. map_of (error s) k = Some e \<and>
                          c \<le> T k - getitem (cache_counter s) k \<and>
                          T k - getitem (cache_counter s) k \<le> c + e)
           | None \<Rightarrow> T k - getitem (cache_counter s) k \<le> nbucket s"
      using assms by (simp add: sound_def)
    have c: "map_of (counter ?s') k = (if prunable s k then None else map_of (counter s) k)"
      using map_of_keys_filter [of "\<lambda>k. \<not> prunable s k" "counter s" k] by simp
    have e: "map_of (error ?s') k = (if prunable s k then None else map_of (error s) k)"
      using map_of_keys_filter [of "\<lambda>k. \<not> prunable s k" "error s" k] by simp
    show ?thesis
      unfolding c e using k by (auto simp: prunable_def split: option.splits)
  qed
  then have "sound ?s' T"
    using assms inv by (simp add: sound_def cong: option.case_cong)
  with p show ?thesis by simp
qed

lemma flush_sound:
  assumes "sound s T"
  shows "\<exists>s'. flush s = (s', None) \<and> sound s' T"
proof -
  have nz: "w s \<noteq> 0" using assms by (simp add: sound_def)
  have m: "sound (flush_merge s) T" using assms by (rule flush_merge_sound)
  show ?thesis
  proof (cases "len (counter (flush_merge s)) \<ge> prune_limit (flush_merge s)")
    case True
    then have "flush s = prune (flush_merge s)"
      using nz by (simp add: flush_def Let_def)
    then show ?thesis using prune_sound [OF m] by simp
  next
    case False
    then have "flush s = (flush_merge s, None)"
      using nz by (simp add: flush_def Let_def)
    then show ?thesis using m by simp
  qed
qed

lemma cache_sound:
  assumes "sound s T"
  shows "\<exists>s'. cache s chunk = (s', None) \<and> sound s' (\<lambda>k. T k + int (count_list chunk k))"
proof -
  define s1 where "s1 = s\<lparr>cache_counter := Counter_update (cache_counter s) chunk,
                  cache_total := cache_total s + int (length chunk)\<rparr>"
  have s1: "sound s1 (\<lambda>k. T k + int (count_list chunk k))"
    unfolding s1_def using assms by (rule cache_store_sound)
  have c: "cache s chunk = (if cache_total s1 \<ge> flush_limit s1 then flush s1 else (s1, None))"
    by (simp add: cache_def s1_def Let_def)
  show ?thesis
    using flush_sound [OF s1] s1 by (simp add: c)
qed

lemma concat_islices: "0 < n \<Longrightarrow> concat (islices n xs) = xs"
proof (induction n xs rule: islices.induct)
  case (1 n xs)
  show ?case
  proof (cases "xs = []")
    case True
    then show ?thesis by (simp add: islices.simps)
  next
    case False
    with "1.prems" have "concat (islices n (drop n xs)) = drop n xs"
      by (intro "1.IH") auto
    with False "1.prems" show ?thesis
      by (subst islices.simps) simp
  qed
qed

lemma cache_chunks_sound:
  "sound s T \<Longrightarrow>
   \<exists>s'. cache_chunks s chunks = (s', None) \<and>
        sound s' (\<lambda>k. T k + int (count_list (concat chunks) k))"
proof (induction chunks arbitrary: s T)
  case Nil
  then show ?case by simp
next
  case (Cons chunk chunks)
  obtain s1 where s1: "cache s chunk = (s1, None)"
    "sound s1 (\<lambda>k. T k + int (count_list chunk k))"
    using cache_sound [OF Cons.prems] by blast
  obtain s2 where s2: "cache_chunks s1 chunks = (s2, None)"
    "sound s2 (\<lambda>k. T k + int (count_list chunk k) + int (count_list (concat chunks) k))"
    using Cons.IH [OF s1(2)] by blast
  have "(\<lambda>k. T k + int (count_list chunk k) + int (count_list (concat chunks) k)) =
        (\<lambda>k. T k + int (count_list (concat (chunk # chunks)) k))"
    by (simp add: fun_eq_iff)
  with s1 s2 show ?case by simp
qed

lemma count_sound:
  assumes "sound s T"
  shows "sound (fst (count s iterable chunk_size))
               (\<lambda>k. T k + int (count_list (fed s (Count iterable chunk_size)) k))"
proof -
  define n where "n = (case chunk_size of None \<Rightarrow> flush_limit s | Some c \<Rightarrow> c)"
  show ?thesis
  proof (cases "n < 1")
    case True
    then have "count s iterable chunk_size = (s, Some ValueError)"
      by (simp add: count_def batched_def n_def)
    moreover have "fed s (Count iterable chunk_size) = []"
      using True by (simp add: n_def)
    ultimately show ?thesis using assms by simp
  next
    case False
    then have b: "batched iterable n = Inr (islices (nat n) iterable)"
      by (simp add: batched_def)
    have f: "fed s (Count iterable chunk_size) = iterable"
      using False by (simp add: n_def)
    have "concat (islices (nat n) iterable) = iterable"
      using False by (intro concat_islices) simp
    then obtain s1 where s1: "cache_chunks s (islices (nat n) iterable) = (s1, None)"
      "sound s1 (\<lambda>k. T k + int (count_list iterable k))"
      using cache_chunks_sound [OF assms, of "islices (nat n) iterable"] by auto
    obtain s2 where s2: "flush s1 = (s2, None)" "sound s2 (\<lambda>k. T k + int (count_list iterable k))"
      using flush_sound [OF s1(2)] by blast
    obtain s3 where s3: "prune s2 = (s3, None)" "sound s3 (\<lambda>k. T k + int (count_list iterable k))"
      using prune_sound [OF s2(2)] by blast
    have "count s iterable chunk_size =
          (if len (counter s2) < prune_limit s2 then (s3, None) else (s2, None))"
      using b s1(1) s2(1) s3(1) by (simp add: count_def n_def [symmetric])
    then show ?thesis
      unfolding f using s2(2) s3(2) by simp
  qed
qed

lemma exec_sound:
  assumes "sound s T"
  shows "sound (fst (exec s c)) (\<lambda>k. T k + int (count_list (fed s c) k))"
proof (cases c)
  case (Cache chunk)
  then show ?thesis using cache_sound [OF assms, of chunk] by auto
next
  case (Count iterable chunk_size)
  then show ?thesis using count_sound [OF assms, of iterable chunk_size] by simp
next
  case Flush
  then show ?thesis using flush_sound [OF assms] by auto
next
  case Prune
  then show ?thesis using prune_sound [OF assms] by auto
qed

lemma run_sound:
  "sound s T \<Longrightarrow> sound (run s cs) (\<lambda>k. T k + int (count_list (submitted s cs) k))"
proof (induction cs arbitrary: s T)
  case Nil
  then show ?case by simp
next
  case (Cons c cs)
  have "sound (fst (exec s c)) (\<lambda>k. T k + int (count_list (fed s c) k))"
    using Cons.prems by (rule exec_sound)
  then have "sound (run (fst (exec s c)) cs)
     (\<lambda>k. T k + int (count_list (fed s c) k) + int (count_list (submitted (fst (exec s c)) cs) k))"
    by (rule Cons.IH)
  moreover have "(\<lambda>k. T k + int (count_list (fed s c) k) + int (count_list (submitted (fst (exec s c)) cs) k)) =
     (\<lambda>k. T k + int (count_list (submitted s (c # cs)) k))"
    by (simp add: fun_eq_iff)
  ultimately show ?case by simp
qed

lemma reachable_sound:
  assumes "init e pl fl = Inr s0" and "0 < e"
  shows "sound (run s0 cs) (true_count s0 cs)"
proof -
  have "sound (run s0 cs) (\<lambda>k. 0 + int (count_list (submitted s0 cs) k))"
    using init_sound [OF assms] by (rule run_sound)
  then show ?thesis by (simp add: true_count_def [abs_def])
qed

section \<open>The flush algorithm\<close>

lemma flush_merge_spec_count:
  assumes "distinct (map fst (cache_counter s))"
  shows "map_of (counter (flush_merge s)) k = spec_flush_count s k"
proof (cases "map_of (cache_counter s) k")
  case None
  then have "k \<notin> set (map fst (cache_counter s))"
    by (simp add: map_of_eq_None_iff)
  then show ?thesis
    using assms None
    by (simp add: flush_merge_def Let_def flush_loop_counter spec_flush_count_def)
next
  case (Some c)
  then have "k \<in> set (map fst (cache_counter s))"
    by (metis map_of_eq_None_iff option.distinct(1) set_map)
  moreover have "getitem (cache_counter s) k = c"
    using Some by (simp add: getitem_def)
  moreover have "spec_flush_count s k = merged_count s (cache_total s div w s) k"
    using Some calculation(2)
    by (simp add: spec_flush_count_def merged_count_def Let_def del: map_of_eq_Some_iff
        split: option.splits)
  ultimately show ?thesis
    using assms by (simp add: flush_merge_def Let_def flush_loop_counter)
qed

lemma flush_merge_spec_error:
  assumes "distinct (map fst (cache_counter s))"
  shows "map_of (error (flush_merge s)) k = spec_flush_error s k"
proof (cases "map_of (cache_counter s) k")
  case None
  then have "k \<notin> set (map fst (cache_counter s))"
    by (simp add: map_of_eq_None_iff)
  then show ?thesis
    using assms None
    by (simp add: flush_merge_def Let_def flush_loop_error spec_flush_error_def)
next
  case (Some c)
  then have "k \<in> set (map fst (cache_counter s))"
    by (metis map_of_eq_None_iff option.distinct(1) set_map)
  moreover have "getitem (cache_counter s) k = c"
    using Some by (simp add: getitem_def)
  moreover have "spec_flush_error s k = merged_error s (cache_total s div w s) k"
    using Some calculation(2)
    by (simp add: spec_flush_error_def merged_error_def Let_def contains_def
        del: map_of_eq_Some_iff split: option.splits)
  ultimately show ?thesis
    using assms by (simp add: flush_merge_def Let_def flush_loop_error)
qed

text \<open>
  Claim C2. For an engine with a non-zero bucket width, \<^verbatim>\<open>flush\<close> takes
  \<open>b = cache_total div w\<close>; a cached item that is tracked has its cached count added and its
  error kept, an untracked one is inserted with its cached count and the bucket clock of
  before the flush as error when its cached count exceeds \<open>b\<close>, and is dropped otherwise;
  then the bucket clock grows by \<open>b\<close>, the total by the cache total, the cache is emptied,
  and \<^verbatim>\<open>prune\<close> runs exactly when the table has reached \<open>prune_limit\<close> entries.
\<close>

theorem flush_algorithm:
  assumes "w s \<noteq> 0" and "distinct (map fst (cache_counter s))"
  shows "flush s =
           (if len (counter (flush_merge s)) \<ge> prune_limit s
            then prune (flush_merge s) else (flush_merge s, None)) \<and>
         (\<forall>k. map_of (counter (flush_merge s)) k = spec_flush_count s k) \<and>
         (\<forall>k. map_of (error (flush_merge s)) k = spec_flush_error s k) \<and>
         nbucket (flush_merge s) = nbucket s + cache_total s div w s \<and>
         total_seen (flush_merge s) = total_seen s + cache_total s \<and>
         cache_counter (flush_merge s) = [] \<and> cache_total (flush_merge s) = 0 \<and>
         eps (flush_merge s) = eps s \<and> w (flush_merge s) = w s \<and>
         prune_limit (flush_merge s) = prune_limit s \<and> flush_limit (flush_merge s) = flush_limit s"
  using assms
  by (simp add: flush_def Let_def flush_merge_frame flush_merge_spec_count flush_merge_spec_error)

section \<open>The scenario of the specification\<close>

lemma scenario_init: "init (1 / 10) None (Some 10) = Inr scenario_engine"
  by (simp add: init_def scenario_engine_def)

lemma scenario_flush: "flush scenario_cached = (scenario_flushed, None)"
  by code_simp

lemma scenario_cache: "cache scenario_engine scenario_batch = (scenario_flushed, None)"
  by code_simp

text \<open>
  Claim C5. With \<open>eps = 0.1\<close> (so \<open>w = 10\<close>) and \<open>flush_limit = 10\<close>, one \<^verbatim>\<open>cache\<close> call
  with five \<open>a\<close> and one each of \<open>b\<close> to \<open>f\<close> reaches the flush limit and flushes with
  \<open>b = 1\<close>. Afterwards the bucket clock is 1, \<open>a\<close> is tracked with count 5 and error 0,
  \<open>b\<close> to \<open>f\<close> are not tracked, and \<^verbatim>\<open>getBounds\<close> gives 5 and 5 for \<open>a\<close>, 0 and 1 for \<open>b\<close>.
\<close>

theorem concrete_scenario:
  "init (1 / 10) None (Some 10) = Inr scenario_engine \<and>
   w scenario_engine = 10 \<and>
   cache scenario_engine scenario_batch = flush scenario_cached \<and>
   cache_total scenario_cached div w scenario_cached = 1 \<and>
   cache scenario_engine scenario_batch = (scenario_flushed, None) \<and>
   nbucket scenario_flushed = 1 \<and>
   counter scenario_flushed = [(''a'', 5)] \<and>
   error scenario_flushed = [(''a'', 0)] \<and>
   \<not> contains (counter scenario_flushed) ''b'' \<and>
   \<not> contains (counter scenario_flushed) ''c'' \<and>
   \<not> contains (counter scenario_flushed) ''d'' \<and>
   \<not> contains (counter scenario_flushed) ''e'' \<and>
   \<not> contains (counter scenario_flushed) ''f'' \<and>
   getBounds scenario_flushed [''a''] =
     (scenario_flushed, Inr [(''a'', [(''lower'', 5), (''upper'', 5)])]) \<and>
   getBounds scenario_flushed [''b''] =
     (scenario_flushed, Inr [(''b'', [(''lower'', 0), (''upper'', 1)])])"
  by (simp add: scenario_init scenario_cache scenario_flush)
     (simp add: scenario_flushed_def scenario_cached_def scenario_engine_def getBounds_def
        contains_def getitem_def dict_get_def)

section \<open>Soundness of the bounds\<close>

lemma run_append: "run s (cs @ [c]) = fst (exec (run s cs) c)"
  by (induction cs arbitrary: s) simp_all

lemma getBounds_single:
  "getBounds s [k] =
     (s, Inr [(k, [(''lower'', getitem (counter s) k),
                   (''upper'', getitem (counter s) k + dict_get (error s) k (nbucket s))])])"
  by (simp add: getBounds_def)

lemma sound_bounds:
  assumes "sound s T"
  shows "getitem (counter s) k \<le> T k"
    and "T k \<le> getitem (counter s) k + dict_get (error s) k (nbucket s) + getitem (cache_counter s) k"
proof -
  have k: "0 \<le> getitem (cache_counter s) k" "0 \<le> T k - getitem (cache_counter s) k"
      "case map_of (counter s) k of
             Some c \<Rightarrow> (\<exists>e. map_of (error s) k = Some e \<and>
                          c \<le> T k - getitem (cache_counter s) k \<and>
                          T k - getitem (cache_counter s) k \<le> c + e)
           | None \<Rightarrow> T k - getitem (cache_counter s) k \<le> nbucket s"
    using assms by (simp_all add: sound_def)
  have agree: "map_of (counter s) k = None \<Longrightarrow> map_of (error s) k = None"
    using assms by (auto simp: sound_def dict_inv_def keys_agree_def map_of_eq_None_iff)
  show "getitem (counter s) k \<le> T k"
    using k by (auto simp: getitem_def [of "counter s"] split: option.splits)
  show "T k \<le> getitem (counter s) k + dict_get (error s) k (nbucket s) + getitem (cache_counter s) k"
    using k agree by (auto simp: getitem_def [of "counter s"] dict_get_def split: option.splits)
qed

lemma flush_empties:
  assumes "sound s T"
  shows "cache_counter (fst (flush s)) = []"
proof -
  have nz: "w s \<noteq> 0" using assms by (simp add: sound_def)
  have ka: "\<forall>k \<in> fst ` set (counter (flush_merge s)). contains (error (flush_merge s)) k"
    using flush_merge_sound [OF assms]
    by (simp add: sound_def dict_inv_def keys_agree_def contains_iff)
  show ?thesis
    using nz by (simp add: flush_def Let_def prune_ok [OF ka] flush_merge_frame)
qed

text \<open>
  Claim C1, as the code has it. For an engine built with \<open>eps > 0\<close> and any calls made
  since, the lower bound of \<^verbatim>\<open>getBounds\<close> for a key is at most the number of times the key
  has been handed to the engine, and that number is at most the upper bound plus the count
  of the key still waiting in the cache. So the bounds enclose the true count whenever the
  cache is empty, as it is right after a flush; between flushes they enclose the count of
  what has been flushed. The lower bound is the count of a tracked key and 0 otherwise, the
  upper bound is count plus error of a tracked key and the bucket clock otherwise.
\<close>

theorem bounds_sound_up_to_cache:
  assumes "init e pl fl = Inr s0" and "0 < e"
  shows "(\<exists>lo up.
           snd (getBounds (run s0 cs) [k]) = Inr [(k, [(''lower'', lo), (''upper'', up)])] \<and>
           lo \<le> true_count s0 cs k \<and>
           true_count s0 cs k \<le> up + getitem (cache_counter (run s0 cs)) k \<and>
           (cache_counter (run s0 cs) = [] \<longrightarrow> true_count s0 cs k \<le> up) \<and>
           (case map_of (counter (run s0 cs)) k of
              Some c \<Rightarrow> lo = c \<and> map_of (error (run s0 cs)) k = Some (up - c)
            | None \<Rightarrow> lo = 0 \<and> up = nbucket (run s0 cs))) \<and>
         (\<exists>lo up.
           snd (getBounds (run s0 (cs @ [Flush])) [k]) = Inr [(k, [(''lower'', lo), (''upper'', up)])] \<and>
           lo \<le> true_count s0 (cs @ [Flush]) k \<and> true_count s0 (cs @ [Flush]) k \<le> up)"
proof -
  have snd: "sound (run s0 cs) (true_count s0 cs)" for cs
    using assms by (rule reachable_sound)
  let ?s = "run s0 cs"
  let ?lo = "getitem (counter ?s) k"
  let ?up = "getitem (counter ?s) k + dict_get (error ?s) k (nbucket ?s)"
  have agree: "map_of (counter ?s) k = None \<Longrightarrow> map_of (error ?s) k = None"
    using snd [of cs] by (auto simp: sound_def dict_inv_def keys_agree_def map_of_eq_None_iff)
  have tracked: "map_of (counter ?s) k = Some c \<Longrightarrow> \<exists>e. map_of (error ?s) k = Some e" for c
    using snd [of cs] by (auto simp: sound_def split: option.splits dest: spec [of _ k])
  have entry: "case map_of (counter ?s) k of
              Some c \<Rightarrow> ?lo = c \<and> map_of (error ?s) k = Some (?up - c)
            | None \<Rightarrow> ?lo = 0 \<and> ?up = nbucket ?s"
  proof (cases "map_of (counter ?s) k")
    case None
    with agree show ?thesis by (simp add: getitem_def dict_get_def)
  next
    case (Some c)
    with tracked obtain e where "map_of (error ?s) k = Some e" by blast
    with Some show ?thesis by (simp add: getitem_def dict_get_def)
  qed
  have lower: "?lo \<le> true_count s0 cs k"
    and upper: "true_count s0 cs k \<le> ?up + getitem (cache_counter ?s) k"
    using sound_bounds [OF snd [of cs], of k] by simp_all
  have empty: "cache_counter ?s = [] \<longrightarrow> true_count s0 cs k \<le> ?up"
    using upper by (auto simp: getitem_def)
  have first: "\<exists>lo up.
           snd (getBounds ?s [k]) = Inr [(k, [(''lower'', lo), (''upper'', up)])] \<and>
           lo \<le> true_count s0 cs k \<and>
           true_count s0 cs k \<le> up + getitem (cache_counter ?s) k \<and>
           (cache_counter ?s = [] \<longrightarrow> true_count s0 cs k \<le> up) \<and>
           (case map_of (counter ?s) k of
              Some c \<Rightarrow> lo = c \<and> map_of (error ?s) k = Some (up - c)
            | None \<Rightarrow> lo = 0 \<and> up = nbucket ?s)"
    using lower upper empty entry
    by (intro exI [of _ ?lo] exI [of _ ?up]) (simp add: getBounds_single)
  let ?t = "run s0 (cs @ [Flush])"
  have "cache_counter ?t = []"
    using flush_empties [OF snd [of cs]] by (simp add: run_append)
  then have "getitem (cache_counter ?t) k = 0" by (simp add: getitem_def)
  then have second: "\<exists>lo up.
           snd (getBounds ?t [k]) = Inr [(k, [(''lower'', lo), (''upper'', up)])] \<and>
           lo \<le> true_count s0 (cs @ [Flush]) k \<and> true_count s0 (cs @ [Flush]) k \<le> up"
    using sound_bounds [OF snd [of "cs @ [Flush]"], of k]
    by (simp add: getBounds_single)
  from first second show ?thesis by (rule conjI)
qed

section \<open>What the queries raise and return\<close>

lemma collect_Inl: "collect f keys r = Inl e \<Longrightarrow> \<exists>k \<in> set keys. f k = Inl e"
  by (induction keys arbitrary: r) (auto split: sum.splits)

lemma collect_Inr: "\<forall>k \<in> set keys. \<exists>v. f k = Inr v \<Longrightarrow> \<exists>r'. collect f keys r = Inr r'"
  by (induction keys arbitrary: r) (auto split: sum.splits)

lemma select_Inl: "select p keys = Inl e \<Longrightarrow> \<exists>k \<in> set keys. p k = Inl e"
  by (induction keys) (auto split: sum.splits)

lemma select_Inr: "\<forall>k \<in> set keys. \<exists>v. p k = Inr v \<Longrightarrow> \<exists>r. select p keys = Inr r"
  by (induction keys) (auto split: sum.splits)

lemma dict_getitem_exn: "dict_getitem d k = Inl e \<Longrightarrow> e = KeyError \<and> \<not> contains d k"
  by (auto simp: dict_getitem_def contains_def split: option.splits)

lemma lower_value_Inr: "\<exists>v. lower_value s k = Inr v"
  by (simp add: lower_value_def)

lemma upper_value_exn:
  "upper_value s k = Inl e \<Longrightarrow> e = KeyError \<and> contains (counter s) k \<and> \<not> contains (error s) k"
  by (auto simp: upper_value_def split: if_splits sum.splits dest: dict_getitem_exn)

lemma median_value_exn:
  "median_value s k = Inl e \<Longrightarrow> e = KeyError \<and> contains (counter s) k \<and> \<not> contains (error s) k"
  by (auto simp: median_value_def split: if_splits sum.splits dest: dict_getitem_exn)

lemma collect_lower: "collect (lower_value s) keys r \<noteq> Inl e"
proof
  assume "collect (lower_value s) keys r = Inl e"
  then obtain k where "lower_value s k = Inl e" by (blast dest: collect_Inl)
  then show False by (simp add: lower_value_def split: if_splits)
qed

lemma collect_upper:
  "collect (upper_value s) keys r = Inl e \<Longrightarrow>
   e = KeyError \<and> (\<exists>k \<in> set keys. contains (counter s) k \<and> \<not> contains (error s) k)"
  by (blast dest: collect_Inl upper_value_exn)

lemma collect_median:
  "collect (median_value s) keys r = Inl e \<Longrightarrow>
   e = KeyError \<and> (\<exists>k \<in> set keys. contains (counter s) k \<and> \<not> contains (error s) k)"
  by (blast dest: collect_Inl median_value_exn)

lemma getCounts_lower: "getCounts s keys ''lower'' = (s, collect (lower_value s) keys [])"
  by (simp add: getCounts_def)

lemma getCounts_upper: "getCounts s keys ''upper'' = (s, collect (upper_value s) keys [])"
  by (simp add: getCounts_def)

lemma getCounts_median: "getCounts s keys ''median'' = (s, collect (median_value s) keys [])"
  by (simp add: getCounts_def)

lemma getCounts_other:
  "approx \<noteq> ''lower'' \<Longrightarrow> approx \<noteq> ''upper'' \<Longrightarrow> approx \<noteq> ''median'' \<Longrightarrow>
   getCounts s keys approx = (s, Inl NotImplementedError)"
  by (simp add: getCounts_def)

lemma getCounts_frame: "fst (getCounts s keys approx) = s"
  by (simp add: getCounts_def)

lemma getCounts_not_implemented:
  "(snd (getCounts s keys approx) = Inl NotImplementedError) =
   (approx \<noteq> ''lower'' \<and> approx \<noteq> ''upper'' \<and> approx \<noteq> ''median'')"
proof (cases "approx = ''lower''")
  case True
  then show ?thesis by (simp add: getCounts_lower collect_lower)
next
  case nl: False
  show ?thesis
  proof (cases "approx = ''upper''")
    case True
    have "collect (upper_value s) keys [] \<noteq> Inl NotImplementedError"
      using collect_upper [of s keys "[]" NotImplementedError] by auto
    with True show ?thesis by (simp add: getCounts_upper)
  next
    case nu: False
    show ?thesis
    proof (cases "approx = ''median''")
      case True
      have "collect (median_value s) keys [] \<noteq> Inl NotImplementedError"
        using collect_median [of s keys "[]" NotImplementedError] by auto
      with True show ?thesis by (simp add: getCounts_median)
    next
      case False
      with nl nu show ?thesis by (simp add: getCounts_other)
    qed
  qed
qed

lemma getFreqItems_lower:
  "getFreqItems s threshold ''lower'' =
     (s, select (\<lambda>key. Inr (of_int (getitem (counter s) key) > resolve_threshold s threshold))
           (map fst (counter s)))"
  by (simp add: getFreqItems_def Let_def)

lemma getFreqItems_upper:
  "getFreqItems s threshold ''upper'' =
     (s, select (freq_upper s (resolve_threshold s threshold)) (map fst (counter s)))"
  by (simp add: getFreqItems_def Let_def freq_upper_def [abs_def])

lemma getFreqItems_median:
  "getFreqItems s threshold ''median'' =
     (s, select (freq_median s (resolve_threshold s threshold)) (map fst (counter s)))"
  by (simp add: getFreqItems_def Let_def freq_median_def [abs_def])

lemma getFreqItems_other:
  "approx \<noteq> ''lower'' \<Longrightarrow> approx \<noteq> ''upper'' \<Longrightarrow> approx \<noteq> ''median'' \<Longrightarrow>
   getFreqItems s threshold approx = (s, Inl NotImplementedError)"
  by (simp add: getFreqItems_def Let_def)

lemma getFreqItems_frame: "fst (getFreqItems s threshold approx) = s"
  by (simp add: getFreqItems_def Let_def)

lemma freq_upper_exn: "freq_upper s t k = Inl e \<Longrightarrow> e = KeyError \<and> \<not> contains (error s) k"
  by (auto simp: freq_upper_def split: sum.splits dest: dict_getitem_exn)

lemma freq_median_exn: "freq_median s t k = Inl e \<Longrightarrow> e = KeyError \<and> \<not> contains (error s) k"
  by (auto simp: freq_median_def split: sum.splits dest: dict_getitem_exn)

lemma select_upper:
  "select (freq_upper s t) keys = Inl e \<Longrightarrow>
   e = KeyError \<and> (\<exists>k \<in> set keys. \<not> contains (error s) k)"
  by (blast dest: select_Inl freq_upper_exn)

lemma select_median:
  "select (freq_median s t) keys = Inl e \<Longrightarrow>
   e = KeyError \<and> (\<exists>k \<in> set keys. \<not> contains (error s) k)"
  by (blast dest: select_Inl freq_median_exn)

lemma select_total: "select (\<lambda>key. Inr (P key)) keys \<noteq> Inl e"
proof
  assume "select (\<lambda>key. Inr (P key)) keys = Inl e"
  then obtain k where "Inr (P k) = (Inl e :: exn + bool)" by (blast dest: select_Inl)
  then show False by simp
qed

lemma getFreqItems_not_implemented:
  "(snd (getFreqItems s threshold approx) = Inl NotImplementedError) =
   (approx \<noteq> ''lower'' \<and> approx \<noteq> ''upper'' \<and> approx \<noteq> ''median'')"
proof (cases "approx = ''lower''")
  case True
  then show ?thesis by (simp add: getFreqItems_lower select_total)
next
  case nl: False
  show ?thesis
  proof (cases "approx = ''upper''")
    case True
    have "select (freq_upper s (resolve_threshold s threshold)) (map fst (counter s))
            \<noteq> Inl NotImplementedError"
      using select_upper [of s _ _ NotImplementedError] by auto
    with True show ?thesis by (simp add: getFreqItems_upper)
  next
    case nu: False
    show ?thesis
    proof (cases "approx = ''median''")
      case True
      have "select (freq_median s (resolve_threshold s threshold)) (map fst (counter s))
              \<noteq> Inl NotImplementedError"
        using select_median [of s _ _ NotImplementedError] by auto
      with True show ?thesis by (simp add: getFreqItems_median)
    next
      case False
      with nl nu show ?thesis by (simp add: getFreqItems_other)
    qed
  qed
qed

text \<open>
  Claim C7. \<^verbatim>\<open>getCounts\<close> and \<^verbatim>\<open>getFreqItems\<close> raise \<^verbatim>\<open>NotImplementedError\<close>, the
  exception for an unsupported approximation, exactly for a mode other than \<open>lower\<close>,
  \<open>upper\<close> and \<open>median\<close>, and the engine they leave is the engine they were given.
\<close>

theorem unsupported_approximation:
  "(snd (getCounts s keys approx) = Inl NotImplementedError) =
     (approx \<notin> {''lower'', ''upper'', ''median''}) \<and>
   (snd (getFreqItems s threshold approx) = Inl NotImplementedError) =
     (approx \<notin> {''lower'', ''upper'', ''median''}) \<and>
   fst (getCounts s keys approx) = s \<and>
   fst (getFreqItems s threshold approx) = s"
  by (simp only: getCounts_not_implemented getFreqItems_not_implemented
      getCounts_frame getFreqItems_frame insert_iff empty_iff de_Morgan_disj simp_thms)

lemma reachable_dict_inv: "init e pl fl = Inr s0 \<Longrightarrow> dict_inv (run s0 cs)"
  by (simp add: init_dict_inv run_dict_inv)

lemma dict_inv_tracked:
  "dict_inv s \<Longrightarrow> contains (counter s) k \<Longrightarrow> \<exists>v. map_of (error s) k = Some v"
  by (simp add: dict_inv_def keys_agree_def contains_iff) (auto simp: contains_def map_of_eq_None_iff)

lemma tracked_values:
  assumes "map_of (counter s) k = Some c" and "map_of (error s) k = Some er"
  shows "lower_value s k = Inr (of_int c)"
    and "upper_value s k = Inr (of_int c + of_int er)"
    and "median_value s k = Inr (of_int c + of_int er / 2)"
  using assms
  by (simp_all add: lower_value_def upper_value_def median_value_def contains_def getitem_def
      dict_getitem_def)

lemma untracked_values:
  assumes "map_of (counter s) k = None"
  shows "lower_value s k = Inr 0"
    and "upper_value s k = Inr (of_int (nbucket s))"
    and "median_value s k = Inr (of_int (nbucket s) / 2)"
  using assms
  by (simp_all add: lower_value_def upper_value_def median_value_def contains_def)

text \<open>
  Claim C8. In every state the engine reaches, the three modes of \<^verbatim>\<open>getCounts\<close> answer for
  a single key, tracked or not: the lower and the upper value are integers, and the median
  is exactly half their sum.
\<close>

theorem median_consistency:
  assumes "init e pl fl = Inr s0"
  shows "\<exists>lo up med.
           snd (getCounts (run s0 cs) [k] ''lower'') = Inr [(k, of_int lo)] \<and>
           snd (getCounts (run s0 cs) [k] ''upper'') = Inr [(k, of_int up)] \<and>
           snd (getCounts (run s0 cs) [k] ''median'') = Inr [(k, med)] \<and>
           med = (of_int lo + of_int up) / 2"
proof (cases "map_of (counter (run s0 cs)) k")
  case None
  let ?n = "nbucket (run s0 cs)"
  have "snd (getCounts (run s0 cs) [k] ''lower'') = Inr [(k, of_int 0)]"
    and "snd (getCounts (run s0 cs) [k] ''upper'') = Inr [(k, of_int ?n)]"
    and "snd (getCounts (run s0 cs) [k] ''median'') = Inr [(k, of_int ?n / 2)]"
    by (simp_all add: getCounts_lower getCounts_upper getCounts_median untracked_values [OF None])
  moreover have "rat_of_int ?n / 2 = (of_int 0 + of_int ?n) / 2" by simp
  ultimately show ?thesis by blast
next
  case (Some c)
  have "dict_inv (run s0 cs)" using assms by (rule reachable_dict_inv)
  then obtain er where er: "map_of (error (run s0 cs)) k = Some er"
    using Some dict_inv_tracked [of "run s0 cs" k] by (auto simp: contains_def)
  have "snd (getCounts (run s0 cs) [k] ''lower'') = Inr [(k, of_int c)]"
    and "snd (getCounts (run s0 cs) [k] ''upper'') = Inr [(k, of_int (c + er))]"
    and "snd (getCounts (run s0 cs) [k] ''median'') = Inr [(k, of_int c + of_int er / 2)]"
    by (simp_all add: getCounts_lower getCounts_upper getCounts_median tracked_values [OF Some er])
  moreover have "rat_of_int c + of_int er / 2 = (of_int c + of_int (c + er)) / 2"
    by (simp add: field_simps)
  ultimately show ?thesis by blast
qed

lemma value_total:
  assumes "dict_inv s"
  shows "\<exists>v. lower_value s k = Inr v" and "\<exists>v. upper_value s k = Inr v"
    and "\<exists>v. median_value s k = Inr v"
proof -
  show "\<exists>v. lower_value s k = Inr v" by (simp add: lower_value_def)
  show "\<exists>v. upper_value s k = Inr v"
  proof (cases "map_of (counter s) k")
    case None
    then show ?thesis by (simp add: untracked_values)
  next
    case (Some c)
    then obtain er where "map_of (error s) k = Some er"
      using dict_inv_tracked [OF assms, of k] by (auto simp: contains_def)
    with Some show ?thesis by (simp add: tracked_values)
  qed
  show "\<exists>v. median_value s k = Inr v"
  proof (cases "map_of (counter s) k")
    case None
    then show ?thesis by (intro exI) (rule untracked_values(3))
  next
    case (Some c)
    then obtain er where "map_of (error s) k = Some er"
      using dict_inv_tracked [OF assms, of k] by (auto simp: contains_def)
    with Some show ?thesis by (intro exI) (rule tracked_values(3))
  qed
qed

lemma freq_total:
  assumes "dict_inv s" and "k \<in> set (map fst (counter s))"
  shows "\<exists>v. freq_upper s t k = Inr v" and "\<exists>v. freq_median s t k = Inr v"
proof -
  have "contains (counter s) k" using assms(2) by (simp add: contains_iff)
  then obtain er where "map_of (error s) k = Some er"
    using dict_inv_tracked [OF assms(1)] by blast
  then show "\<exists>v. freq_upper s t k = Inr v" and "\<exists>v. freq_median s t k = Inr v"
    by (simp_all add: freq_upper_def freq_median_def dict_getitem_def)
qed

lemma getCounts_returns:
  assumes "dict_inv s" and "approx = ''lower'' \<or> approx = ''upper'' \<or> approx = ''median''"
  shows "\<exists>r. getCounts s keys approx = (s, Inr r)"
  using assms(2)
proof (elim disjE)
  assume "approx = ''lower''"
  then show ?thesis
    using collect_Inr [of keys "lower_value s" "[]"] value_total(1) [OF assms(1)]
    by (simp add: getCounts_lower)
next
  assume "approx = ''upper''"
  then show ?thesis
    using collect_Inr [of keys "upper_value s" "[]"] value_total(2) [OF assms(1)]
    by (simp add: getCounts_upper)
next
  assume "approx = ''median''"
  then show ?thesis
    using collect_Inr [of keys "median_value s" "[]"] value_total(3) [OF assms(1)]
    by (simp add: getCounts_median)
qed

lemma getFreqItems_returns:
  assumes "dict_inv s" and "approx = ''lower'' \<or> approx = ''upper'' \<or> approx = ''median''"
  shows "\<exists>r. getFreqItems s threshold approx = (s, Inr r)"
  using assms(2)
proof (elim disjE)
  assume "approx = ''lower''"
  then show ?thesis
    using select_Inr [of "map fst (counter s)"
        "\<lambda>key. Inr (of_int (getitem (counter s) key) > resolve_threshold s threshold)"]
    by (simp add: getFreqItems_lower)
next
  assume "approx = ''upper''"
  then show ?thesis
    using select_Inr [of "map fst (counter s)" "freq_upper s (resolve_threshold s threshold)"]
      freq_total(1) [OF assms(1)]
    by (simp add: getFreqItems_upper)
next
  assume "approx = ''median''"
  then show ?thesis
    using select_Inr [of "map fst (counter s)" "freq_median s (resolve_threshold s threshold)"]
      freq_total(2) [OF assms(1)]
    by (simp add: getFreqItems_median)
qed

text \<open>
  Claim C9. In every state the engine reaches, each of the four queries, asked for any
  list of keys and any of the three modes, returns a result and leaves the engine, that
  is the cache, the table, the error map, the bucket clock and the total, as it was.
\<close>

theorem queries_read_only:
  assumes "init e pl fl = Inr s0" and "approx \<in> {''lower'', ''upper'', ''median''}"
  shows "(\<exists>r. getCounts (run s0 cs) keys approx = (run s0 cs, Inr r)) \<and>
         (\<exists>r. getFreqItems (run s0 cs) threshold approx = (run s0 cs, Inr r)) \<and>
         (\<exists>r. getCountsAndErrors (run s0 cs) keys = (run s0 cs, Inr r)) \<and>
         (\<exists>r. getBounds (run s0 cs) keys = (run s0 cs, Inr r))"
proof -
  have inv: "dict_inv (run s0 cs)" using assms(1) by (rule reachable_dict_inv)
  have mode: "approx = ''lower'' \<or> approx = ''upper'' \<or> approx = ''median''"
    using assms(2) by (simp only: insert_iff empty_iff simp_thms)
  show ?thesis
    using getCounts_returns [OF inv mode, of keys] getFreqItems_returns [OF inv mode, of threshold]
    by (simp add: getCountsAndErrors_def getBounds_def)
qed

text \<open>
  Claim C10. In every state reached from a constructed engine by \<^verbatim>\<open>cache\<close>, \<^verbatim>\<open>count\<close>,
  \<^verbatim>\<open>flush\<close> and \<^verbatim>\<open>prune\<close> calls, whether they returned or raised, the table and the error
  map have the same keys, so the error of a tracked key is always found and no query
  raises \<^verbatim>\<open>KeyError\<close>.
\<close>

theorem tracked_keys_have_errors:
  assumes "init e pl fl = Inr s0"
  shows "fst ` set (counter (run s0 cs)) = fst ` set (error (run s0 cs)) \<and>
         distinct (map fst (counter (run s0 cs))) \<and>
         distinct (map fst (error (run s0 cs))) \<and>
         (\<forall>k. contains (counter (run s0 cs)) k \<longrightarrow> (\<exists>v. dict_getitem (error (run s0 cs)) k = Inr v)) \<and>
         (\<forall>keys approx. snd (getCounts (run s0 cs) keys approx) \<noteq> Inl KeyError) \<and>
         (\<forall>threshold approx. snd (getFreqItems (run s0 cs) threshold approx) \<noteq> Inl KeyError)"
proof -
  have inv: "dict_inv (run s0 cs)" using assms(1) by (rule reachable_dict_inv)
  have found: "contains (counter (run s0 cs)) k \<Longrightarrow> \<exists>v. dict_getitem (error (run s0 cs)) k = Inr v" for k
    using dict_inv_tracked [OF inv, of k] by (auto simp: dict_getitem_def)
  have gc: "snd (getCounts (run s0 cs) keys approx) \<noteq> Inl KeyError" for keys approx
  proof (cases "approx = ''lower'' \<or> approx = ''upper'' \<or> approx = ''median''")
    case True
    then show ?thesis using getCounts_returns [OF inv True, of keys] by auto
  next
    case False
    then show ?thesis by (simp add: getCounts_other)
  qed
  have gf: "snd (getFreqItems (run s0 cs) threshold approx) \<noteq> Inl KeyError" for threshold approx
  proof (cases "approx = ''lower'' \<or> approx = ''upper'' \<or> approx = ''median''")
    case True
    then show ?thesis using getFreqItems_returns [OF inv True, of threshold] by auto
  next
    case False
    then show ?thesis by (simp add: getFreqItems_other)
  qed
  show ?thesis
    using inv found gc gf by (simp add: dict_inv_def keys_agree_def)
qed

text \<open>
  Claim C3. \<^verbatim>\<open>prune\<close> removes from the table exactly the keys whose count plus error is
  at most the bucket clock, the bound included, removes their error entries, and leaves
  every other entry and every other field as it was. (On a state where a tracked key has
  no error entry, which no run reaches, it raises \<^verbatim>\<open>KeyError\<close> and changes nothing.)
\<close>

theorem prune_exact:
  "if \<forall>k \<in> fst ` set (counter s). contains (error s) k
   then \<exists>s'. prune s = (s', None) \<and>
          (\<forall>k. map_of (counter s') k = (if prunable s k then None else map_of (counter s) k)) \<and>
          (\<forall>k. map_of (error s') k = (if prunable s k then None else map_of (error s) k)) \<and>
          counter s' = filter (\<lambda>p. \<not> prunable s (fst p)) (counter s) \<and>
          error s' = filter (\<lambda>p. \<not> prunable s (fst p)) (error s) \<and>
          s' = s\<lparr>counter := counter s', error := error s'\<rparr>
   else prune s = (s, Some KeyError)"
proof (cases "\<forall>k \<in> fst ` set (counter s). contains (error s) k")
  case True
  let ?s' = "s\<lparr>counter := filter (\<lambda>p. \<not> prunable s (fst p)) (counter s),
               error := filter (\<lambda>p. \<not> prunable s (fst p)) (error s)\<rparr>"
  have p: "prune s = (?s', None)" by (rule prune_ok [OF True])
  have c: "map_of (counter ?s') k = (if prunable s k then None else map_of (counter s) k)" for k
    using map_of_keys_filter [of "\<lambda>k. \<not> prunable s k" "counter s" k] by simp
  have e: "map_of (error ?s') k = (if prunable s k then None else map_of (error s) k)" for k
    using map_of_keys_filter [of "\<lambda>k. \<not> prunable s k" "error s" k] by simp
  have "\<exists>s'. prune s = (s', None) \<and>
          (\<forall>k. map_of (counter s') k = (if prunable s k then None else map_of (counter s) k)) \<and>
          (\<forall>k. map_of (error s') k = (if prunable s k then None else map_of (error s) k)) \<and>
          counter s' = filter (\<lambda>p. \<not> prunable s (fst p)) (counter s) \<and>
          error s' = filter (\<lambda>p. \<not> prunable s (fst p)) (error s) \<and>
          s' = s\<lparr>counter := counter s', error := error s'\<rparr>"
    using p c e by (intro exI [of _ ?s']) simp
  with True show ?thesis by simp
next
  case False
  then have "prune s = (s, Some KeyError)" by (rule prune_err)
  with False show ?thesis by simp
qed

lemma survivors:
  assumes "dict_inv s" and "p \<in> set (counter s)"
  shows "(\<not> prunable s (fst p)) =
         (case p of (k, c) \<Rightarrow> (case map_of (error s) k of Some er \<Rightarrow> nbucket s < c + er | None \<Rightarrow> False))"
proof -
  obtain k c where p: "p = (k, c)" by (cases p)
  have c: "map_of (counter s) k = Some c"
    using assms p by (simp add: dict_inv_def)
  then obtain er where er: "map_of (error s) k = Some er"
    using dict_inv_tracked [OF assms(1), of k] by (auto simp: contains_def)
  show ?thesis
    using c er by (simp add: p prunable_def not_le)
qed

text \<open>
  Claim C4, as the code has it. In every state the engine reaches, \<^verbatim>\<open>prune\<close> returns and
  keeps exactly the entries whose count plus error exceeds the bucket clock, whenever they
  were admitted. So the table is smaller than \<open>prune_limit\<close> afterwards exactly when
  fewer than \<open>prune_limit\<close> entries exceed the bucket clock.
\<close>

theorem prune_size:
  assumes "init e pl fl = Inr s0"
  shows "\<exists>s'. prune (run s0 cs) = (s', None) \<and>
           counter s' =
             filter (\<lambda>(k, c). case map_of (error (run s0 cs)) k of
                                 Some er \<Rightarrow> nbucket (run s0 cs) < c + er | None \<Rightarrow> False)
                    (counter (run s0 cs)) \<and>
           (len (counter s') < prune_limit s') =
             (int (length (filter (\<lambda>(k, c). case map_of (error (run s0 cs)) k of
                                 Some er \<Rightarrow> nbucket (run s0 cs) < c + er | None \<Rightarrow> False)
                    (counter (run s0 cs)))) < prune_limit (run s0 cs)) \<and>
           len (counter s') \<le> len (counter (run s0 cs)) \<and>
           list_all (\<lambda>(k, c). case map_of (error s') k of
                                 Some er \<Rightarrow> nbucket s' < c + er | None \<Rightarrow> False) (counter s')"
proof -
  let ?s = "run s0 cs"
  let ?keep = "\<lambda>(k, c). case map_of (error ?s) k of Some er \<Rightarrow> nbucket ?s < c + er | None \<Rightarrow> False"
  let ?s' = "?s\<lparr>counter := filter (\<lambda>p. \<not> prunable ?s (fst p)) (counter ?s),
               error := filter (\<lambda>p. \<not> prunable ?s (fst p)) (error ?s)\<rparr>"
  have inv: "dict_inv ?s" using assms by (rule reachable_dict_inv)
  have "\<forall>k \<in> fst ` set (counter ?s). contains (error ?s) k"
    using inv by (simp add: dict_inv_def keys_agree_def contains_iff)
  then have p: "prune ?s = (?s', None)" by (rule prune_ok)
  have f: "filter (\<lambda>p. \<not> prunable ?s (fst p)) (counter ?s) = filter ?keep (counter ?s)"
    by (rule filter_cong [OF refl]) (rule survivors [OF inv])
  have e: "map_of (error ?s') k = (if prunable ?s k then None else map_of (error ?s) k)" for k
    using map_of_keys_filter [of "\<lambda>k. \<not> prunable ?s k" "error ?s" k] by simp
  have kept: "list_all (\<lambda>(k, c). case map_of (error ?s') k of
                                 Some er \<Rightarrow> nbucket ?s' < c + er | None \<Rightarrow> False) (counter ?s')"
    unfolding list_all_iff
  proof
    fix p assume "p \<in> set (counter ?s')"
    then have in_s: "p \<in> set (counter ?s)" and np: "\<not> prunable ?s (fst p)" by simp_all
    from survivors [OF inv in_s] np have "?keep p" by simp
    moreover have "map_of (error ?s') (fst p) = map_of (error ?s) (fst p)"
      using np by (simp only: e if_False)
    ultimately show "case p of (k, c) \<Rightarrow> (case map_of (error ?s') k of
                                 Some er \<Rightarrow> nbucket ?s' < c + er | None \<Rightarrow> False)"
      by (cases p) (simp cong: option.case_cong)
  qed
  have c: "counter ?s' = filter ?keep (counter ?s)"
    using f by simp
  have "prune ?s = (?s', None) \<and>
           counter ?s' = filter ?keep (counter ?s) \<and>
           (len (counter ?s') < prune_limit ?s') =
             (int (length (filter ?keep (counter ?s))) < prune_limit ?s) \<and>
           len (counter ?s') \<le> len (counter ?s) \<and>
           list_all (\<lambda>(k, c). case map_of (error ?s') k of
                                 Some er \<Rightarrow> nbucket ?s' < c + er | None \<Rightarrow> False) (counter ?s')"
    using p kept unfolding c by (simp add: len_def)
  then show ?thesis by (rule exI [of _ ?s'])
qed

text \<open>
  Claim C6, as the code has it. The constructor checks nothing: it fails only for
  \<open>eps = 0\<close>, with the \<^verbatim>\<open>ZeroDivisionError\<close> of \<^verbatim>\<open>1/eps\<close>, and otherwise builds the engine
  whatever \<open>eps\<close> and the limits are. A batch size below 1 is refused by \<^verbatim>\<open>batched\<close>, with
  \<^verbatim>\<open>ValueError\<close>, when \<^verbatim>\<open>count\<close> is called, and the engine is left as it was.
\<close>

theorem init_checks_nothing:
  "(init e pl fl = (Inl ZeroDivisionError :: exn + 'k LossyCounter)) = (e = 0) \<and>
   (e \<noteq> 0 \<longrightarrow>
      init e pl fl =
        Inr (\<lparr>eps = e, w = \<lceil>1 / e\<rceil>, cache_counter = [], cache_total = 0,
             counter = [], error = [], total_seen = 0, nbucket = 0,
             prune_limit = (case pl of None \<Rightarrow> 10 * \<lceil>1 / e\<rceil> | Some p \<Rightarrow> p),
             flush_limit = (case fl of None \<Rightarrow> 10 * \<lceil>1 / e\<rceil> | Some f \<Rightarrow> f)\<rparr> :: 'k LossyCounter)) \<and>
   ((case chunk_size of None \<Rightarrow> flush_limit s | Some c \<Rightarrow> c) < 1 \<longrightarrow>
      count (s :: 'k LossyCounter) iterable chunk_size = (s, Some ValueError))"
  by (simp add: init_def Let_def count_def batched_def)

lemma default_init: "init (1 / 10) None None = Inr default_engine"
  by (simp add: init_def default_engine_def)

lemma small_init: "init (1 / 10) (Some 3) (Some 1) = Inr small_engine"
  by (simp add: init_def small_engine_def)

lemma unchecked_init: "init 2 (Some 0) (Some 0) = Inr unchecked_engine"
  by code_simp

lemma scenario_run: "run scenario_engine [Cache scenario_batch] = scenario_flushed"
  by (simp add: scenario_cache)

lemma boundary_run: "run scenario_engine boundary_calls = boundary_engine"
  by code_simp

lemma three_run: "run small_engine three_calls = three_tracked"
  by code_simp

section \<open>Where the specification and the code differ\<close>

text \<open>
  Claim C1 fails between flushes. After a flush and a \<^verbatim>\<open>cache\<close> call with one \<open>a\<close>,
  which stays in the cache because the flush limit is 100, the key \<open>a\<close> has been
  submitted once, yet its upper bound is 0.
\<close>

theorem bounds_fail_with_pending_cache:
  "init (1 / 10) None None = Inr default_engine \<and>
   snd (getBounds (run default_engine pending_calls) [''a'']) =
     Inr [(''a'', [(''lower'', 0), (''upper'', 0)])] \<and>
   true_count default_engine pending_calls ''a'' = 1 \<and>
   \<not> true_count default_engine pending_calls ''a'' \<le> 0"
  by (simp add: default_init) code_simp

text \<open>
  Claim C4 fails when entries pile up over several flushes. With \<open>prune_limit = 3\<close> and
  \<open>flush_limit = 1\<close>, three \<^verbatim>\<open>cache\<close> calls with one new item each flush one entry each
  into the table; batches shorter than \<open>w\<close> never advance the bucket clock, so nothing can
  be pruned, and after \<^verbatim>\<open>prune\<close> the table still has 3 entries.
\<close>

theorem table_not_below_limit:
  "init (1 / 10) (Some 3) (Some 1) = Inr small_engine \<and>
   len (counter (run small_engine [Cache [''a'']])) = 1 \<and>
   len (counter (run small_engine [Cache [''a''], Cache [''b'']])) = 2 \<and>
   len (counter (run small_engine three_calls)) = 3 \<and>
   prune (run small_engine three_calls) = (run small_engine three_calls, None) \<and>
   prune_limit (fst (prune (run small_engine three_calls))) = 3 \<and>
   \<not> len (counter (fst (prune (run small_engine three_calls)))) <
        prune_limit (fst (prune (run small_engine three_calls)))"
  by (simp add: small_init) code_simp

text \<open>
  Claim C6 fails: \<open>eps = 2\<close>, \<open>prune_limit = 0\<close> and \<open>flush_limit = 0\<close> are accepted.
\<close>

theorem limits_below_one_accepted:
  "init 2 (Some 0) (Some 0) =
     Inr (\<lparr>eps = 2, w = 1, cache_counter = [], cache_total = 0, counter = [], error = [],
           total_seen = 0, nbucket = 0, prune_limit = 0, flush_limit = 0\<rparr> :: string LossyCounter)"
  by code_simp

section \<open>The theorems at concrete engines\<close>

text \<open>
  The bounds of C1 at the state of the counterexample, and after one more flush.
\<close>

theorem bounds_sound_up_to_cache_witness:
  "init (1 / 10) None None = Inr default_engine \<and> (0 :: rat) < 1 / 10 \<and>
   (\<exists>lo up.
      snd (getBounds (run default_engine pending_calls) [''a'']) =
        Inr [(''a'', [(''lower'', lo), (''upper'', up)])] \<and>
      lo \<le> true_count default_engine pending_calls ''a'' \<and>
      true_count default_engine pending_calls ''a'' \<le>
        up + getitem (cache_counter (run default_engine pending_calls)) ''a'') \<and>
   (\<exists>lo up.
      snd (getBounds (run default_engine (pending_calls @ [Flush])) [''a'']) =
        Inr [(''a'', [(''lower'', lo), (''upper'', up)])] \<and>
      lo \<le> true_count default_engine (pending_calls @ [Flush]) ''a'' \<and>
      true_count default_engine (pending_calls @ [Flush]) ''a'' \<le> up)"
proof -
  have pos: "(0 :: rat) < 1 / 10" by simp
  show ?thesis
    using bounds_sound_up_to_cache [OF default_init pos, of pending_calls "''a''"] default_init pos
    by blast
qed

text \<open>
  The flush of the scenario, read off the theorem for C2.
\<close>

theorem flush_algorithm_witness:
  "w scenario_cached \<noteq> 0 \<and> distinct (map fst (cache_counter scenario_cached)) \<and>
   flush scenario_cached = (flush_merge scenario_cached, None) \<and>
   map_of (counter (flush_merge scenario_cached)) ''a'' = Some 5 \<and>
   map_of (error (flush_merge scenario_cached)) ''a'' = Some 0 \<and>
   map_of (counter (flush_merge scenario_cached)) ''b'' = None \<and>
   nbucket (flush_merge scenario_cached) = 1 \<and>
   total_seen (flush_merge scenario_cached) = 10 \<and>
   cache_counter (flush_merge scenario_cached) = []"
proof -
  have nz: "w scenario_cached \<noteq> 0"
    by (simp add: scenario_cached_def scenario_engine_def)
  have d: "distinct (map fst (cache_counter scenario_cached))"
    by (simp add: scenario_cached_def scenario_engine_def)
  have v: "spec_flush_count scenario_cached ''a'' = Some 5"
    "spec_flush_error scenario_cached ''a'' = Some 0"
    "spec_flush_count scenario_cached ''b'' = None"
    "nbucket scenario_cached + cache_total scenario_cached div w scenario_cached = 1"
    "total_seen scenario_cached + cache_total scenario_cached = 10"
    "prune_limit scenario_cached = 100"
    by (simp_all add: spec_flush_count_def spec_flush_error_def scenario_cached_def scenario_engine_def)
  have small: "\<not> prune_limit scenario_cached \<le> len (counter (flush_merge scenario_cached))"
    by code_simp
  show ?thesis
    using flush_algorithm [OF nz d] nz d v small by simp
qed

text \<open>
  Pruning at the boundary: \<open>a\<close> has count 2, error 0 and the bucket clock is 2, so \<open>a\<close> goes;
  \<open>z\<close> with count 3 stays.
\<close>

theorem prune_exact_witness:
  "fst ` set (counter boundary_engine) = {''a'', ''z''} \<and>
   contains (error boundary_engine) ''a'' \<and> contains (error boundary_engine) ''z'' \<and>
   getitem (counter boundary_engine) ''a'' + getitem (error boundary_engine) ''a'' =
     nbucket boundary_engine \<and>
   prunable boundary_engine ''a'' \<and> \<not> prunable boundary_engine ''z'' \<and>
   (\<exists>s'. prune boundary_engine = (s', None) \<and>
      map_of (counter s') ''a'' = None \<and> map_of (error s') ''a'' = None \<and>
      map_of (counter s') ''z'' = Some 3 \<and> map_of (error s') ''z'' = Some 0 \<and>
      s' = boundary_engine\<lparr>counter := counter s', error := error s'\<rparr>)"
proof -
  have ok: "\<forall>k \<in> fst ` set (counter boundary_engine). contains (error boundary_engine) k"
    by (simp add: boundary_engine_def scenario_engine_def contains_def)
  have v: "getitem (counter boundary_engine) ''a'' + getitem (error boundary_engine) ''a'' =
     nbucket boundary_engine"
    "prunable boundary_engine ''a''" "\<not> prunable boundary_engine ''z''"
    "map_of (counter boundary_engine) ''z'' = Some 3"
    "map_of (error boundary_engine) ''z'' = Some 0"
    by (simp_all add: boundary_engine_def scenario_engine_def getitem_def prunable_def)
  have keys: "fst ` set (counter boundary_engine) = {''a'', ''z''}"
    "contains (error boundary_engine) ''a''" "contains (error boundary_engine) ''z''"
    by (simp_all add: boundary_engine_def scenario_engine_def contains_def)
  have "\<exists>s'. prune boundary_engine = (s', None) \<and>
      map_of (counter s') ''a'' = None \<and> map_of (error s') ''a'' = None \<and>
      map_of (counter s') ''z'' = Some 3 \<and> map_of (error s') ''z'' = Some 0 \<and>
      s' = boundary_engine\<lparr>counter := counter s', error := error s'\<rparr>"
    using prune_exact [of boundary_engine] ok v by auto
  with keys v show ?thesis by simp
qed

text \<open>
  The table of three entries, none of which can be pruned.
\<close>

theorem prune_size_witness:
  "init (1 / 10) (Some 3) (Some 1) = Inr small_engine \<and>
   (\<exists>s'. prune (run small_engine three_calls) = (s', None) \<and>
      (len (counter s') < prune_limit s') =
        (int (length (filter (\<lambda>(k, c). case map_of (error (run small_engine three_calls)) k of
                                 Some er \<Rightarrow> nbucket (run small_engine three_calls) < c + er
                               | None \<Rightarrow> False)
                    (counter (run small_engine three_calls)))) < prune_limit (run small_engine three_calls)) \<and>
      len (counter s') \<le> len (counter (run small_engine three_calls)))"
  using prune_size [OF small_init, of three_calls] small_init by blast

text \<open>
  An engine with \<open>eps = 2\<close> and limits 0, and a \<^verbatim>\<open>count\<close> call with batch size 0.
\<close>

theorem init_checks_nothing_witness:
  "(2 :: rat) \<noteq> 0 \<and> init 2 (Some 0) (Some 0) = Inr unchecked_engine \<and>
   (case Some 0 of None \<Rightarrow> flush_limit scenario_engine | Some c \<Rightarrow> c) < 1 \<and>
   count scenario_engine [''a''] (Some 0) = (scenario_engine, Some ValueError)"
proof -
  have "\<lceil>1 / (2 :: rat)\<rceil> = 1" by code_simp
  then show ?thesis
    using init_checks_nothing [where e = 2 and pl = "Some 0" and fl = "Some 0"
        and chunk_size = "Some 0" and s = scenario_engine and iterable = "[''a'']"]
    by (simp add: unchecked_engine_def)
qed

text \<open>
  The mode \<open>foobar\<close> of the specification's scenario.
\<close>

theorem unsupported_approximation_witness:
  "''foobar'' \<notin> {''lower'', ''upper'', ''median''} \<and>
   snd (getCounts scenario_flushed [''a''] ''foobar'') = Inl NotImplementedError \<and>
   snd (getFreqItems scenario_flushed None ''foobar'') = Inl NotImplementedError \<and>
   fst (getCounts scenario_flushed [''a''] ''foobar'') = scenario_flushed \<and>
   fst (getFreqItems scenario_flushed None ''foobar'') = scenario_flushed \<and>
   snd (getCounts scenario_flushed [''a''] ''upper'') \<noteq> Inl NotImplementedError"
  using unsupported_approximation [of scenario_flushed "[''a'']" "''foobar''" None]
    unsupported_approximation [of scenario_flushed "[''a'']" "''upper''" None]
  by simp

text \<open>
  The median of the untracked key \<open>b\<close> of the scenario.
\<close>

theorem median_consistency_witness:
  "init (1 / 10) None (Some 10) = Inr scenario_engine \<and>
   (\<exists>lo up med.
      snd (getCounts (run scenario_engine [Cache scenario_batch]) [''b''] ''lower'') = Inr [(''b'', of_int lo)] \<and>
      snd (getCounts (run scenario_engine [Cache scenario_batch]) [''b''] ''upper'') = Inr [(''b'', of_int up)] \<and>
      snd (getCounts (run scenario_engine [Cache scenario_batch]) [''b''] ''median'') = Inr [(''b'', med)] \<and>
      med = (of_int lo + of_int up) / 2)"
  using median_consistency [OF scenario_init, of "[Cache scenario_batch]" "''b''"] scenario_init
  by blast

text \<open>
  The four queries on the engine of the scenario, for a tracked and an untracked key.
\<close>

theorem queries_read_only_witness:
  "init (1 / 10) None (Some 10) = Inr scenario_engine \<and>
   ''median'' \<in> {''lower'', ''upper'', ''median''} \<and>
   (\<exists>r. getCounts (run scenario_engine [Cache scenario_batch]) [''a'', ''q''] ''median'' =
          (run scenario_engine [Cache scenario_batch], Inr r)) \<and>
   (\<exists>r. getFreqItems (run scenario_engine [Cache scenario_batch]) None ''median'' =
          (run scenario_engine [Cache scenario_batch], Inr r)) \<and>
   (\<exists>r. getCountsAndErrors (run scenario_engine [Cache scenario_batch]) [''a'', ''q''] =
          (run scenario_engine [Cache scenario_batch], Inr r)) \<and>
   (\<exists>r. getBounds (run scenario_engine [Cache scenario_batch]) [''a'', ''q''] =
          (run scenario_engine [Cache scenario_batch], Inr r))"
proof -
  have mode: "''median'' \<in> {''lower'', ''upper'', ''median''}" by simp
  show ?thesis
    using queries_read_only [OF scenario_init mode, of "[Cache scenario_batch]" "[''a'', ''q'']" None]
      scenario_init mode
    by blast
qed

text \<open>
  The keys of the table and of the error map after two flushes.
\<close>

theorem tracked_keys_have_errors_witness:
  "init (1 / 10) None (Some 10) = Inr scenario_engine \<and>
   fst ` set (counter (run scenario_engine boundary_calls)) =
     fst ` set (error (run scenario_engine boundary_calls)) \<and>
   fst ` set (counter (run scenario_engine boundary_calls)) = {''a'', ''z''}"
proof -
  have "fst ` set (counter boundary_engine) = {''a'', ''z''}"
    by (simp add: boundary_engine_def scenario_engine_def)
  then show ?thesis
    using tracked_keys_have_errors [OF scenario_init, of boundary_calls] scenario_init
    by (simp add: boundary_run)
qed

end
